theory Spec2Isabelle
  imports Main "HOL-Library.Word" "HOL-Library.Monad_Syntax"
begin

unbundle bit_operations_syntax

section \<open>The USB gadget serial driver: mode controller and AOA event queue\<close>

text \<open>
  A shallow embedding of \<^verbatim>\<open>drivers/usb/gadget/serial.c\<close>: the module-scope
  variables become one record that every operation takes and returns, the event list
  becomes nodes in an explicit store linked by \<^verbatim>\<open>next\<close>/\<^verbatim>\<open>prev\<close> addresses, and
  the calls into the composite framework become entries of a call log. A spinlock or
  mutex section is one atomic step of the model.
\<close>

subsection \<open>Enumerations and constants\<close>

datatype aoa_string_type =
  AOA_STRING_MANUFACTURER | AOA_STRING_MODEL | AOA_STRING_DESCRIPTION
  | AOA_STRING_VERSION | AOA_STRING_URI | AOA_STRING_SERIAL

datatype aoa_event_type =
  AOA_EVENT_CONNECTED_ACM | AOA_EVENT_DISCONNECTED_ACM
  | AOA_EVENT_STRING_RECEIVED | AOA_EVENT_START_REQUESTED

datatype gadget_mode = MODE_NONE | MODE_ACM | MODE_AOA

type_synonym size_t = "32 word"
type_synonym addr = nat

definition AOA_MAX_STR_SIZE :: nat where
  "AOA_MAX_STR_SIZE = 256"

text \<open>Enumerations occupy four bytes; \<^verbatim>\<open>struct aoa_string\<close> is an enumeration
  followed by \<^verbatim>\<open>char str[AOA_MAX_STR_SIZE]\<close>.\<close>

definition sizeof_enum :: nat where
  "sizeof_enum = 4"

definition sizeof_aoa_event :: nat where
  "sizeof_aoa_event = sizeof_enum + (sizeof_enum + AOA_MAX_STR_SIZE)"

definition EINTR :: int where "EINTR = 4"
definition EFAULT :: int where "EFAULT = 14"
definition EBUSY :: int where "EBUSY = 16"
definition EINVAL :: int where "EINVAL = 22"
definition ENOTTY :: int where "ENOTTY = 25"

text \<open>\<^verbatim>\<open>_IO('g', nr)\<close> is \<^verbatim>\<open>('g' << 8) | nr\<close>, and \<^verbatim>\<open>'g'\<close> is \<^verbatim>\<open>0x67\<close>.\<close>

definition AOA_IOCTL_SWITCH_TO_AOA :: nat where "AOA_IOCTL_SWITCH_TO_AOA = 0x6701"
definition AOA_IOCTL_SWITCH_TO_ACM :: nat where "AOA_IOCTL_SWITCH_TO_ACM = 0x6702"
definition AOA_IOCTL_RESET :: nat where "AOA_IOCTL_RESET = 0x6703"

definition POLLIN :: nat where "POLLIN = 0x0001"
definition POLLRDNORM :: nat where "POLLRDNORM = 0x0040"

definition NUL :: char where
  "NUL = CHR 0x00"

subsection \<open>The store of event-list nodes\<close>

text \<open>
  \<^verbatim>\<open>struct aoa_event_list_node\<close>. The embedded \<^verbatim>\<open>struct list_head\<close> is the pair
  \<open>nxt\<close>, \<open>prv\<close>; a node and its \<^verbatim>\<open>list\<close> member share one address, so
  \<^verbatim>\<open>list_entry\<close> is the identity. \<open>str\<close> is the buffer \<^verbatim>\<open>char *str\<close> points to
  (\<open>None\<close> is \<^verbatim>\<open>NULL\<close>): the node owns it and nothing else refers to it.
  \<open>str_type\<close> is \<open>None\<close> while the field has never been written.
\<close>

record aoa_event_list_node =
  ntype :: aoa_event_type
  str_type :: "aoa_string_type option"
  str :: "string option"
  nxt :: addr
  prv :: addr

type_synonym heap = "addr \<rightharpoonup> aoa_event_list_node"

text \<open>The helpers of \<^verbatim>\<open>linux/list.h\<close>. A read or write through an address that is
  not allocated has no result.\<close>

definition set_next :: "heap \<Rightarrow> addr \<Rightarrow> addr \<Rightarrow> heap option" where
  "set_next h a v = (case h a of None \<Rightarrow> None | Some n \<Rightarrow> Some (h(a \<mapsto> n\<lparr>nxt := v\<rparr>)))"

definition set_prev :: "heap \<Rightarrow> addr \<Rightarrow> addr \<Rightarrow> heap option" where
  "set_prev h a v = (case h a of None \<Rightarrow> None | Some n \<Rightarrow> Some (h(a \<mapsto> n\<lparr>prv := v\<rparr>)))"

definition INIT_LIST_HEAD :: "heap \<Rightarrow> addr \<Rightarrow> heap option" where
  "INIT_LIST_HEAD h l = do { h1 \<leftarrow> set_next h l l; set_prev h1 l l }"

definition list_add_between :: "heap \<Rightarrow> addr \<Rightarrow> addr \<Rightarrow> addr \<Rightarrow> heap option" where
  \<comment> \<open>\<^verbatim>\<open>__list_add(new, prev, next)\<close>\<close>
  "list_add_between h new prev next = do {
     h1 \<leftarrow> set_prev h next new;
     h2 \<leftarrow> set_next h1 new next;
     h3 \<leftarrow> set_prev h2 new prev;
     set_next h3 prev new
   }"

definition list_add :: "heap \<Rightarrow> addr \<Rightarrow> addr \<Rightarrow> heap option" where
  \<comment> \<open>\<^verbatim>\<open>list_add(new, head)\<close>: insert \<open>new\<close> after \<open>head\<close>\<close>
  "list_add h new head = do { hd_node \<leftarrow> h head; list_add_between h new head (nxt hd_node) }"

definition LIST_POISON1 :: addr where "LIST_POISON1 = 0x00100100"
definition LIST_POISON2 :: addr where "LIST_POISON2 = 0x00200200"

definition list_del :: "heap \<Rightarrow> addr \<Rightarrow> heap option" where
  \<comment> \<open>\<^verbatim>\<open>__list_del(entry->prev, entry->next)\<close>, then the two poison writes\<close>
  "list_del h entry = do {
     e \<leftarrow> h entry;
     h1 \<leftarrow> set_prev h (nxt e) (prv e);
     h2 \<leftarrow> set_next h1 (prv e) (nxt e);
     h3 \<leftarrow> set_next h2 entry LIST_POISON1;
     set_prev h3 entry LIST_POISON2
   }"

definition kfree :: "heap \<Rightarrow> addr \<Rightarrow> heap option" where
  \<comment> \<open>freeing a node also frees the string buffer it owns\<close>
  "kfree h a = do { _ \<leftarrow> h a; Some (h(a := None)) }"

text \<open>
  The body of \<^verbatim>\<open>list_for_each_entry_safe(node, temp, head, list)\<close> in
  \<^verbatim>\<open>aoa_event_node_add\<close>: while \<open>node\<close> is not the head, unlink it, free it, and go
  on with \<open>temp\<close>, whose successor is read before the next test.
\<close>

partial_function (option) free_entries :: "addr \<Rightarrow> heap \<Rightarrow> addr \<Rightarrow> addr \<Rightarrow> heap option" where
  "free_entries head h node temp =
     (if node = head then Some h
      else do {
        h1 \<leftarrow> list_del h node;
        h2 \<leftarrow> kfree h1 node;
        t \<leftarrow> h2 temp;
        free_entries head h2 temp (nxt t)
      })"

declare free_entries.simps [code]

definition list_for_each_entry_safe_free :: "heap \<Rightarrow> addr \<Rightarrow> heap option" where
  "list_for_each_entry_safe_free h head = do {
     hn \<leftarrow> h head;
     n \<leftarrow> h (nxt hn);
     free_entries head h (nxt hn) (nxt n)
   }"

subsection \<open>Module state\<close>

datatype bind_fn = gs_bind_acm | gs_bind_aoa

datatype transport_call =
  usb_composite_unregister | gserial_cleanup | usb_composite_probe bind_fn

text \<open>The fields of \<^verbatim>\<open>serial_config_driver\<close>, \<^verbatim>\<open>device_desc\<close> and
  \<^verbatim>\<open>strings_dev\<close> that \<^verbatim>\<open>switch_mode\<close> writes.\<close>

record descriptors =
  label :: string
  bConfigurationValue :: nat
  bDeviceClass :: nat
  idVendor :: nat
  idProduct :: nat
  description_s :: string

definition USB_CLASS_COMM :: nat where "USB_CLASS_COMM = 2"
definition USB_CLASS_VENDOR_SPEC :: nat where "USB_CLASS_VENDOR_SPEC = 0xff"
definition GS_ACM_VENDOR_ID :: nat where "GS_ACM_VENDOR_ID = 0x0525"
definition GS_ACM_PRODUCT_ID :: nat where "GS_ACM_PRODUCT_ID = 0xa4a7"
definition GS_AOA_VENDOR_ID :: nat where "GS_AOA_VENDOR_ID = 0x18d1"
definition GS_AOA_PRODUCT_ID :: nat where "GS_AOA_PRODUCT_ID = 0x2d00"

text \<open>
  \<open>calls\<close> lists the calls made into the composite framework, oldest first. The two
  \<^verbatim>\<open>atomic_t\<close> flags are integers, as in the source.
\<close>

record state =
  heap :: heap
  first_aoa_event_node :: "addr option"
  last_aoa_event_node :: "addr option"
  next_aoa_event_node :: "addr option"
  aoa_connected_acm :: int
  aoa_ctrl_open :: int
  current_mode :: gadget_mode
  descr :: descriptors
  calls :: "transport_call list"

definition init_state :: state where
  "init_state =
     \<lparr>heap = Map.empty, first_aoa_event_node = None, last_aoa_event_node = None,
      next_aoa_event_node = None, aoa_connected_acm = 0, aoa_ctrl_open = 0,
      current_mode = MODE_NONE,
      descr = \<lparr>label = [], bConfigurationValue = 0, bDeviceClass = 0, idVendor = 0,
               idProduct = 0, description_s = []\<rparr>,
      calls = []\<rparr>"

subsection \<open>The mode controller\<close>

text \<open>
  \<open>probe_ret\<close> is what \<^verbatim>\<open>usb_composite_probe\<close> returns if this call reaches it.
\<close>

definition switch_mode :: "gadget_mode \<Rightarrow> int \<Rightarrow> state \<Rightarrow> int \<times> state" where
  "switch_mode new_mode probe_ret s =
     (if current_mode s = new_mode then (0, s)
      else
        let s1 = (if current_mode s \<noteq> MODE_NONE
                  then s\<lparr>calls := calls s @ [usb_composite_unregister, gserial_cleanup]\<rparr>
                  else s)
        in case new_mode of
             MODE_NONE \<Rightarrow> (0, s1\<lparr>current_mode := MODE_NONE\<rparr>)
           | MODE_ACM \<Rightarrow>
               let s2 = s1\<lparr>descr := \<lparr>label = ''CDC ACM config'', bConfigurationValue = 2,
                                     bDeviceClass = USB_CLASS_COMM,
                                     idVendor = GS_ACM_VENDOR_ID,
                                     idProduct = GS_ACM_PRODUCT_ID,
                                     description_s = ''CDC ACM config''\<rparr>,
                          calls := calls s1 @ [usb_composite_probe gs_bind_acm]\<rparr>
               in if probe_ret \<noteq> 0 then (probe_ret, s2)
                  else (probe_ret, s2\<lparr>current_mode := new_mode\<rparr>)
           | MODE_AOA \<Rightarrow>
               let s2 = s1\<lparr>descr := \<lparr>label = ''Android Open Accessory config'',
                                     bConfigurationValue = 1,
                                     bDeviceClass = USB_CLASS_VENDOR_SPEC,
                                     idVendor = GS_AOA_VENDOR_ID,
                                     idProduct = GS_AOA_PRODUCT_ID,
                                     description_s = ''Android Open Accessory config''\<rparr>,
                          calls := calls s1 @ [usb_composite_probe gs_bind_aoa]\<rparr>
               in if probe_ret \<noteq> 0 then (probe_ret, s2)
                  else (probe_ret, s2\<lparr>current_mode := new_mode\<rparr>))"

definition reset_mode :: "int \<Rightarrow> state \<Rightarrow> int \<times> state" where
  "reset_mode probe_ret s =
     (if current_mode s = MODE_NONE then (0, s)
      else (probe_ret,
            s\<lparr>calls := calls s @ [usb_composite_unregister, gserial_cleanup,
                 usb_composite_probe
                   (if current_mode s = MODE_ACM then gs_bind_acm else gs_bind_aoa)]\<rparr>))"

subsection \<open>The event queue: producers\<close>

text \<open>
  \<open>new_node\<close> is what \<^verbatim>\<open>kmalloc\<close> returns for the node (\<open>None\<close> is \<^verbatim>\<open>NULL\<close>).
  The memory it returns is uninitialised; the two list fields are written by
  \<^verbatim>\<open>INIT_LIST_HEAD\<close> before anything reads them, so the model starts them at 0.
  \<open>str_type_ptr\<close> is the argument \<^verbatim>\<open>enum aoa_string_type *str_type\<close>. The result is
  \<open>None\<close> when the code reads or writes through an address that is not allocated, or
  when the loop over the list does not end.
\<close>

definition aoa_event_node_add ::
  "aoa_event_type \<Rightarrow> aoa_string_type option \<Rightarrow> string option \<Rightarrow> addr option \<Rightarrow> state
     \<Rightarrow> (bool \<times> state) option" where
  "aoa_event_node_add type str_type_ptr str_ptr new_node s =
     (case new_node of
        None \<Rightarrow> Some (False, s)
      | Some new \<Rightarrow> do {
          let h0 = (heap s)(new \<mapsto> \<lparr>ntype = type, str_type = str_type_ptr, str = str_ptr,
                                    nxt = 0, prv = 0\<rparr>);
          (h1, first1, next1) \<leftarrow>
            (case first_aoa_event_node s of
               Some f \<Rightarrow>
                 if type = AOA_EVENT_CONNECTED_ACM
                 then do { h \<leftarrow> list_for_each_entry_safe_free h0 f; Some (h, None, None) }
                 else Some (h0, Some f, next_aoa_event_node s)
             | None \<Rightarrow> Some (h0, None, next_aoa_event_node s));
          h2 \<leftarrow> INIT_LIST_HEAD h1 new;
          (h3, first2, next2) \<leftarrow>
            (case first1 of
               None \<Rightarrow> Some (h2, Some new, Some new)
             | Some f \<Rightarrow> do {
                 l \<leftarrow> last_aoa_event_node s;
                 h \<leftarrow> list_add h2 new l;
                 Some (h, first1, next1)
               });
          Some (True,
                s\<lparr>heap := h3, first_aoa_event_node := first2,
                  next_aoa_event_node := (if next2 = None then Some new else next2),
                  last_aoa_event_node := Some new\<rparr>)
        })"

definition aoa_event_add :: "aoa_event_type \<Rightarrow> addr option \<Rightarrow> state \<Rightarrow> state option" where
  "aoa_event_add type new_node s =
     map_option snd (aoa_event_node_add type None None new_node s)"

text \<open>
  \<open>strbuf\<close> is the memory readable at \<^verbatim>\<open>strbuf\<close>, \<open>str_alloc\<close> tells whether the
  \<^verbatim>\<open>kmalloc\<close> of the string succeeds. The buffer it returns has \<open>str_mem_len\<close> bytes.
  \<^verbatim>\<open>memcpy\<close> writes \<open>n = str_mem_len - 1\<close> bytes into it (the subtraction wraps, as
  \<open>size_t\<close> does) and reads as many from \<open>strbuf\<close>, and the terminator goes to index
  \<open>n\<close>: there is no result when the buffer has fewer than \<open>n\<close> bytes, when \<open>strbuf\<close>
  has fewer than \<open>n\<close> bytes, or when index \<open>n\<close> is outside the buffer. Releasing the
  string after a failed node allocation leaves nothing behind, the string being held by
  value.
\<close>

definition aoa_str_received_event_add ::
  "aoa_string_type \<Rightarrow> string \<Rightarrow> size_t \<Rightarrow> bool \<Rightarrow> addr option \<Rightarrow> state \<Rightarrow> state option" where
  "aoa_str_received_event_add type strbuf len str_alloc new_node s =
     (let str_mem_len = min (len + 1) (of_nat AOA_MAX_STR_SIZE :: size_t)
      in if \<not> str_alloc then Some s
         else let n = unat (str_mem_len - 1)
              in if unat str_mem_len < n \<or> length strbuf < n \<or> unat str_mem_len \<le> n
                 then None
                 else map_option snd
                        (aoa_event_node_add AOA_EVENT_STRING_RECEIVED (Some type)
                           (Some (take n strbuf @ [NUL])) new_node s))"

text \<open>The connection-state tracker: \<^verbatim>\<open>atomic_xchg\<close> stores the new value, as 0 or 1,
  and yields the old one.\<close>

definition aoa_set_connected_acm :: "bool \<Rightarrow> addr option \<Rightarrow> state \<Rightarrow> state option" where
  "aoa_set_connected_acm new_connected_acm new_node s =
     (let old = aoa_connected_acm s;
          s1 = s\<lparr>aoa_connected_acm := of_bool new_connected_acm\<rparr>
      in if old \<noteq> of_bool new_connected_acm
         then (if new_connected_acm
               then aoa_event_add AOA_EVENT_CONNECTED_ACM new_node s1
               else aoa_event_add AOA_EVENT_DISCONNECTED_ACM new_node s1)
         else Some s1)"

subsection \<open>The control device\<close>

text \<open>What \<^verbatim>\<open>copy_to_user\<close> hands over: the event type alone, or a
  \<^verbatim>\<open>struct aoa_event\<close> up to and including the terminator of the string.\<close>

record aoa_string =
  string_type :: "aoa_string_type option"
  string_str :: string

record aoa_event =
  event_type :: aoa_event_type
  event_string :: "aoa_string option"

datatype read_result = Sleeps | Returns int "aoa_event option"

definition strlen :: "string \<Rightarrow> nat option" where
  \<comment> \<open>no result when the buffer holds no terminator\<close>
  "strlen b = (if NUL \<in> set b then Some (length (takeWhile (\<lambda>c. c \<noteq> NUL) b)) else None)"

definition advance_next :: "aoa_event_list_node \<Rightarrow> state \<Rightarrow> state" where
  \<comment> \<open>the lines after the copy in \<^verbatim>\<open>aoa_read\<close>\<close>
  "advance_next n s =
     (if last_aoa_event_node s = next_aoa_event_node s
      then s\<lparr>next_aoa_event_node := None\<rparr>
      else s\<lparr>next_aoa_event_node := Some (nxt n)\<rparr>)"

text \<open>
  \<open>buf\<close> is the user pointer (\<open>None\<close> is \<^verbatim>\<open>NULL\<close>), \<open>signal\<close> tells whether a
  signal is pending when the call would wait, \<open>user_ok\<close> whether \<^verbatim>\<open>copy_to_user\<close>
  succeeds. With no event to deliver and no signal the caller sleeps: \<open>Sleeps\<close>,
  with the state as it was.
\<close>

definition aoa_read ::
  "addr option \<Rightarrow> size_t \<Rightarrow> bool \<Rightarrow> bool \<Rightarrow> state \<Rightarrow> (read_result \<times> state) option" where
  "aoa_read buf len signal user_ok s =
     (if buf = None \<or> unat len \<noteq> sizeof_aoa_event then Some (Returns (- EINVAL) None, s)
      else case next_aoa_event_node s of
             None \<Rightarrow> if signal then Some (Returns (- EINTR) None, s) else Some (Sleeps, s)
           | Some c \<Rightarrow> do {
               n \<leftarrow> heap s c;
               (case str n of
                  None \<Rightarrow>
                    if \<not> user_ok then Some (Returns (- EFAULT) None, s)
                    else Some (Returns (int sizeof_enum)
                                 (Some \<lparr>event_type = ntype n, event_string = None\<rparr>),
                               advance_next n s)
                | Some b \<Rightarrow> do {
                    k \<leftarrow> strlen b;
                    let str_mem_len = k + 1;
                    if AOA_MAX_STR_SIZE < str_mem_len then None
                    else if \<not> user_ok then Some (Returns (- EFAULT) None, s)
                    else Some (Returns (int (sizeof_enum + sizeof_enum + str_mem_len))
                                 (Some \<lparr>event_type = ntype n,
                                        event_string =
                                          Some \<lparr>string_type = str_type n,
                                                string_str = take str_mem_len b\<rparr>\<rparr>),
                               advance_next n s)
                  })
             })"

definition aoa_open :: "int \<Rightarrow> state \<Rightarrow> int \<times> state" where
  "aoa_open probe_ret s =
     (if aoa_ctrl_open s \<noteq> 0 then (- EBUSY, s\<lparr>aoa_ctrl_open := 1\<rparr>)
      else case switch_mode MODE_ACM probe_ret (s\<lparr>aoa_ctrl_open := 1\<rparr>) of
             (ret, s1) \<Rightarrow>
               if ret = 0
               then (ret, s1\<lparr>next_aoa_event_node := first_aoa_event_node s1\<rparr>)
               else (ret, s1\<lparr>aoa_ctrl_open := 0\<rparr>))"

definition aoa_release :: "state \<Rightarrow> int \<times> state" where
  "aoa_release s = (case switch_mode MODE_NONE 0 s of (_, s1) \<Rightarrow> (0, s1\<lparr>aoa_ctrl_open := 0\<rparr>))"

definition aoa_ioctl :: "nat \<Rightarrow> int \<Rightarrow> state \<Rightarrow> int \<times> state" where
  "aoa_ioctl code probe_ret s =
     (if code = AOA_IOCTL_SWITCH_TO_AOA then switch_mode MODE_AOA probe_ret s
      else if code = AOA_IOCTL_SWITCH_TO_ACM then switch_mode MODE_ACM probe_ret s
      else if code = AOA_IOCTL_RESET then reset_mode probe_ret s
      else (- ENOTTY, s))"

definition aoa_poll :: "state \<Rightarrow> nat" where
  "aoa_poll s = (if next_aoa_event_node s = None then 0 else POLLIN OR POLLRDNORM)"

subsection \<open>Consumers and producers as sequences of calls\<close>

text \<open>
  A read that delivers a record: a buffer of the right size, \<^verbatim>\<open>copy_to_user\<close>
  succeeding. \<open>reads k\<close> is \<open>k\<close> such reads in a row and the records they return;
  it has no result as soon as one of them sleeps or fails.
\<close>

definition read_event :: "addr option \<Rightarrow> bool \<Rightarrow> state \<Rightarrow> (aoa_event \<times> state) option" where
  "read_event buf signal s =
     (case aoa_read buf (of_nat sizeof_aoa_event) signal True s of
        Some (Returns ret (Some e), s') \<Rightarrow> Some (e, s')
      | _ \<Rightarrow> None)"

fun reads :: "nat \<Rightarrow> addr option \<Rightarrow> bool \<Rightarrow> state \<Rightarrow> (aoa_event list \<times> state) option" where
  "reads 0 buf signal s = Some ([], s)"
| "reads (Suc k) buf signal s = do {
     (e, s1) \<leftarrow> read_event buf signal s;
     (es, s2) \<leftarrow> reads k buf signal s1;
     Some (e # es, s2)
   }"

text \<open>
  The two producer entry points, each call with what its allocations return: whether the
  \<^verbatim>\<open>kmalloc\<close> of the string succeeds (of no effect on \<^verbatim>\<open>aoa_event_add\<close>, which
  allocates no string) and the address of the node, if any. \<open>pushes\<close> runs a sequence of
  such calls.
\<close>

datatype producer_call =
  Event_add aoa_event_type
  | Str_received aoa_string_type string size_t

fun push :: "producer_call \<Rightarrow> bool \<Rightarrow> addr option \<Rightarrow> state \<Rightarrow> state option" where
  "push (Event_add t) str_alloc new_node s = aoa_event_add t new_node s"
| "push (Str_received ty strbuf len) str_alloc new_node s =
     aoa_str_received_event_add ty strbuf len str_alloc new_node s"

fun pushes :: "(producer_call \<times> bool \<times> addr option) list \<Rightarrow> state \<Rightarrow> state option" where
  "pushes [] s = Some s"
| "pushes ((c, str_alloc, new_node) # cs) s = do {
     s1 \<leftarrow> push c str_alloc new_node s;
     pushes cs s1
   }"

text \<open>Every node allocation that succeeds returns an address that is free when it is
  made.\<close>

fun fresh_allocs :: "(producer_call \<times> bool \<times> addr option) list \<Rightarrow> state \<Rightarrow> bool" where
  "fresh_allocs [] s = True"
| "fresh_allocs ((c, str_alloc, new_node) # cs) s =
     ((case new_node of None \<Rightarrow> True | Some new \<Rightarrow> heap s new = None) \<and>
      (case push c str_alloc new_node s of None \<Rightarrow> False | Some s1 \<Rightarrow> fresh_allocs cs s1))"

text \<open>A call enqueues a record when its allocations succeed; \<open>enqueued\<close> keeps those
  calls of a sequence, each with the address of its node.\<close>

fun accepted :: "producer_call \<Rightarrow> bool \<Rightarrow> bool" where
  "accepted (Event_add t) str_alloc = True"
| "accepted (Str_received ty strbuf len) str_alloc = str_alloc"

fun enqueued :: "(producer_call \<times> bool \<times> addr option) list \<Rightarrow> (producer_call \<times> addr) list" where
  "enqueued [] = []"
| "enqueued ((c, str_alloc, None) # cs) = enqueued cs"
| "enqueued ((c, str_alloc, Some new) # cs) =
     (if accepted c str_alloc then (c, new) # enqueued cs else enqueued cs)"

text \<open>A string call hands over \<open>len\<close> readable bytes, and \<open>len + 1\<close> does not wrap
  (no buffer has \<open>2 ^ 32 - 1\<close> bytes).\<close>

fun valid_call :: "producer_call \<Rightarrow> bool" where
  "valid_call (Event_add t) = True"
| "valid_call (Str_received ty strbuf len) = (unat len \<le> length strbuf \<and> unat len < 2 ^ 32 - 1)"

subsection \<open>What the store represents\<close>

text \<open>
  \<open>seg h p ns q\<close>: the nodes \<open>ns\<close> are allocated and linked in this order, the first
  one pointing back to \<open>p\<close> and the last one on to \<open>q\<close>. \<open>ring h ns\<close>: they form
  the circular list that starts at \<open>hd ns\<close>.
\<close>

primrec seg :: "heap \<Rightarrow> addr \<Rightarrow> addr list \<Rightarrow> addr \<Rightarrow> bool" where
  "seg h p [] q = True"
| "seg h p (a # as) q =
     (case h a of
        None \<Rightarrow> False
      | Some n \<Rightarrow> prv n = p \<and> nxt n = (case as of [] \<Rightarrow> q | b # _ \<Rightarrow> b) \<and> seg h a as q)"

definition ring :: "heap \<Rightarrow> addr list \<Rightarrow> bool" where
  "ring h ns = (ns \<noteq> [] \<and> distinct ns \<and> seg h (last ns) ns (hd ns))"

definition payload ::
  "aoa_event_list_node \<Rightarrow> aoa_event_type \<times> aoa_string_type option \<times> string option" where
  "payload n = (ntype n, str_type n, str n)"

text \<open>A string buffer is well formed when it holds a terminator and fits
  \<^verbatim>\<open>char str[AOA_MAX_STR_SIZE]\<close>.\<close>

definition str_ok :: "aoa_event_list_node \<Rightarrow> bool" where
  "str_ok n =
     (case str n of None \<Rightarrow> True | Some b \<Rightarrow> NUL \<in> set b \<and> length b \<le> AOA_MAX_STR_SIZE)"

text \<open>The record a node stands for: its type and, with a string, the string's type and
  the bytes up to and including the first terminator.\<close>

definition event_of :: "aoa_event_list_node \<Rightarrow> aoa_event" where
  "event_of n =
     \<lparr>event_type = ntype n,
      event_string =
        (case str n of
           None \<Rightarrow> None
         | Some b \<Rightarrow> Some \<lparr>string_type = str_type n,
                           string_str = takeWhile (\<lambda>c. c \<noteq> NUL) b @ [NUL]\<rparr>)\<rparr>"

definition nodes_ok :: "heap \<Rightarrow> addr list \<Rightarrow> bool" where
  "nodes_ok h ns = list_all (\<lambda>a. case h a of None \<Rightarrow> False | Some n \<Rightarrow> str_ok n) ns"

definition contents :: "heap \<Rightarrow> addr list \<Rightarrow> aoa_event option list" where
  "contents h ns = map (\<lambda>a. map_option event_of (h a)) ns"

text \<open>
  \<open>queue s ns\<close>: the event log of \<open>s\<close> is the nodes \<open>ns\<close>, head first. With no head
  there is no cursor; otherwise the head pointer is the first node, the tail pointer the
  last one, and the cursor is \<^verbatim>\<open>NULL\<close> or one of the nodes.
\<close>

definition queue :: "state \<Rightarrow> addr list \<Rightarrow> bool" where
  "queue s ns =
     (case first_aoa_event_node s of
        None \<Rightarrow> ns = [] \<and> next_aoa_event_node s = None
      | Some f \<Rightarrow>
          ring (heap s) ns \<and> hd ns = f \<and> last_aoa_event_node s = Some (last ns)
          \<and> (case next_aoa_event_node s of None \<Rightarrow> True | Some c \<Rightarrow> c \<in> set ns)
          \<and> nodes_ok (heap s) ns)"

text \<open>The nodes the cursor has not passed yet.\<close>

definition pending :: "state \<Rightarrow> addr list \<Rightarrow> addr list" where
  "pending s ns =
     (case next_aoa_event_node s of None \<Rightarrow> [] | Some c \<Rightarrow> dropWhile (\<lambda>a. a \<noteq> c) ns)"

text \<open>The record a producer call enqueues: a string is cut to
  \<open>AOA_MAX_STR_SIZE - 1\<close> bytes, and a reader sees it up to its first terminator.\<close>

fun record_of :: "producer_call \<Rightarrow> aoa_event" where
  "record_of (Event_add t) = \<lparr>event_type = t, event_string = None\<rparr>"
| "record_of (Str_received ty strbuf len) =
     \<lparr>event_type = AOA_EVENT_STRING_RECEIVED,
      event_string =
        Some \<lparr>string_type = Some ty,
              string_str =
                takeWhile (\<lambda>c. c \<noteq> NUL) (take (min (unat len) (AOA_MAX_STR_SIZE - 1)) strbuf)
                @ [NUL]\<rparr>\<rparr>"

text \<open>The log after a sequence of records, by the rule of the specification: a
  \<open>Connected\<close> record discards what was enqueued before it.\<close>

definition compact :: "aoa_event list \<Rightarrow> aoa_event \<Rightarrow> aoa_event list" where
  "compact log e = (if event_type e = AOA_EVENT_CONNECTED_ACM then [e] else log @ [e])"

definition survivors :: "aoa_event list \<Rightarrow> aoa_event list \<Rightarrow> aoa_event list" where
  "survivors log es = foldl compact log es"

subsection \<open>Example states and call sequences\<close>

text \<open>The state after a successful switch to the ACM personality, and after a
  successful \<^verbatim>\<open>open\<close> of the control device.\<close>

definition acm_state :: state where
  "acm_state = snd (switch_mode MODE_ACM 0 init_state)"

definition open_state :: state where
  "open_state = snd (aoa_open 0 init_state)"

text \<open>Two events in the log, the first one already read.\<close>

definition two_events_state :: state where
  "two_events_state =
     init_state
       \<lparr>heap := [1 \<mapsto> \<lparr>ntype = AOA_EVENT_STRING_RECEIVED, str_type = Some AOA_STRING_MODEL,
                        str = Some (''Pixel'' @ [NUL]), nxt = 2, prv = 2\<rparr>,
                 2 \<mapsto> \<lparr>ntype = AOA_EVENT_START_REQUESTED, str_type = None, str = None,
                        nxt = 1, prv = 1\<rparr>],
        first_aoa_event_node := Some 1, last_aoa_event_node := Some 2,
        next_aoa_event_node := Some 2\<rparr>"

definition example_calls :: "(producer_call \<times> bool \<times> addr option) list" where
  "example_calls =
     [(Str_received AOA_STRING_MODEL ''Pixel'' 5, True, Some 1),
      (Event_add AOA_EVENT_CONNECTED_ACM, True, Some 2),
      (Event_add AOA_EVENT_DISCONNECTED_ACM, True, None),
      (Event_add AOA_EVENT_START_REQUESTED, True, Some 3)]"

definition in_order_calls :: "(producer_call \<times> bool \<times> addr option) list" where
  "in_order_calls =
     [(Str_received AOA_STRING_MODEL ''Pixel'' 5, True, Some 1),
      (Str_received AOA_STRING_URI ''http://a'' 8, False, Some 2),
      (Event_add AOA_EVENT_START_REQUESTED, True, Some 2),
      (Event_add AOA_EVENT_DISCONNECTED_ACM, True, Some 3)]"

section \<open>Properties\<close>

subsection \<open>Linked segments and rings\<close>

lemma seg_upd_other: "a \<notin> set ns \<Longrightarrow> seg (h(a := v)) p ns q = seg h p ns q"
  by (induction ns arbitrary: p) (auto split: option.splits)

lemma seg_dom: "seg h p ns q \<Longrightarrow> a \<in> set ns \<Longrightarrow> \<exists>n. h a = Some n"
  by (induction ns arbitrary: p) (auto split: option.splits)

lemma seg_snoc:
  "seg h p (as @ [b]) q =
     (seg h p as b \<and> (\<exists>n. h b = Some n \<and> prv n = (if as = [] then p else last as) \<and> nxt n = q))"
  by (induction as arbitrary: p) (auto split: option.splits list.splits)

lemma seg_set_prv_head:
  "seg h p (a # as) q \<Longrightarrow> a \<notin> set as \<Longrightarrow> h a = Some n \<Longrightarrow>
   seg (h(a \<mapsto> n\<lparr>prv := p'\<rparr>)) p' (a # as) q"
  by (auto simp: seg_upd_other)

lemma seg_set_nxt_last:
  "seg h p (as @ [l]) q \<Longrightarrow> l \<notin> set as \<Longrightarrow> h l = Some n \<Longrightarrow>
   seg (h(l \<mapsto> n\<lparr>nxt := q'\<rparr>)) p (as @ [l]) q'"
  by (auto simp: seg_snoc seg_upd_other)


lemma set_next_Some: "h a = Some n \<Longrightarrow> set_next h a v = Some (h(a \<mapsto> n\<lparr>nxt := v\<rparr>))"
  by (simp add: set_next_def)

lemma set_prev_Some: "h a = Some n \<Longrightarrow> set_prev h a v = Some (h(a \<mapsto> n\<lparr>prv := v\<rparr>))"
  by (simp add: set_prev_def)

lemma ring_hd_last:
  assumes "ring h ns"
  shows "\<exists>nf nl. h (hd ns) = Some nf \<and> prv nf = last ns \<and> h (last ns) = Some nl \<and> nxt nl = hd ns"
proof -
  from assms have ne: "ns \<noteq> []" and sg: "seg h (last ns) ns (hd ns)"
    by (simp_all add: ring_def)
  from ne obtain f bs where fb: "ns = f # bs" by (cases ns) auto
  from ne obtain as l where al: "ns = as @ [l]" by (cases ns rule: rev_cases) auto
  from sg fb have "\<exists>nf. h (hd ns) = Some nf \<and> prv nf = last ns"
    by (auto split: option.splits)
  moreover from sg al have "\<exists>nl. h (last ns) = Some nl \<and> nxt nl = hd ns"
    by (auto simp: seg_snoc)
  ultimately show ?thesis by blast
qed

lemma list_add_ring:
  assumes r: "ring h ns" and fresh: "new \<notin> set ns" and alloc: "h new = Some nn"
  shows "\<exists>h'. list_add h new (last ns) = Some h' \<and> ring h' (ns @ [new])
              \<and> (\<forall>a. map_option payload (h' a) = map_option payload (h a))"
proof -
  from r have ne: "ns \<noteq> []" and d: "distinct ns" and sg: "seg h (last ns) ns (hd ns)"
    by (simp_all add: ring_def)
  from ne obtain f bs where fb: "ns = f # bs" by (cases ns) auto
  from ne obtain as l where al: "ns = as @ [l]" by (cases ns rule: rev_cases) auto
  have hd_f: "hd ns = f" by (simp add: fb)
  have last_l: "last ns = l" by (simp add: al)
  note hdl = hd_f last_l
  from ring_hd_last [OF r] obtain nf nl where
    hf: "h f = Some nf" and pf: "prv nf = l" and hl: "h l = Some nl" and nl: "nxt nl = f"
    unfolding hdl by blast
  have nf_new: "new \<noteq> f" using fresh by (auto simp: fb)
  have nl_new: "new \<noteq> l" using fresh by (auto simp: al)
  have sg': "seg h l ns f" using sg by (simp only: hdl)
  define h1 where "h1 = h(f \<mapsto> nf\<lparr>prv := new\<rparr>)"
  define nl' where "nl' = (if l = f then nf\<lparr>prv := new\<rparr> else nl)"
  define h4 where "h4 = (h1(l \<mapsto> nl'\<lparr>nxt := new\<rparr>))(new \<mapsto> nn\<lparr>nxt := f, prv := l\<rparr>)"
  have h1l: "h1 l = Some nl'" by (simp add: h1_def nl'_def hl)
  have h1new: "h1 new = Some nn" using nf_new by (simp add: h1_def alloc)
  have run: "list_add h new (last ns) = Some h4"
    using nl_new nf_new
    by (auto simp: list_add_def list_add_between_def set_next_def set_prev_def
        last_l hl nl hf alloc h4_def h1_def nl'_def fun_upd_twist)
  have s1: "seg h1 new ns f"
    using sg' d hf unfolding h1_def fb by (auto simp: seg_upd_other)
  have s2: "seg (h1(l \<mapsto> nl'\<lparr>nxt := new\<rparr>)) new ns new"
    using s1 d h1l unfolding al by (intro seg_set_nxt_last) auto
  have s4: "seg h4 new ns new"
    unfolding h4_def using s2 fresh by (simp add: seg_upd_other)
  have "seg h4 new (ns @ [new]) f"
    using s4 ne last_l by (simp add: seg_snoc h4_def)
  then have "ring h4 (ns @ [new])"
    using d fresh ne hd_f by (simp add: ring_def)
  moreover have "\<forall>a. map_option payload (h4 a) = map_option payload (h a)"
    by (auto simp: h4_def h1_def nl'_def payload_def hf hl alloc)
  ultimately show ?thesis using run by blast
qed


lemma del_second:
  assumes r: "ring h (f # x # xs)"
  shows "\<exists>h1 h2 nx. h x = Some nx \<and> nxt nx = hd (xs @ [f]) \<and> list_del h x = Some h1
           \<and> kfree h1 x = Some h2 \<and> ring h2 (f # xs) \<and> h2 x = None
           \<and> (\<forall>a. a \<noteq> x \<longrightarrow> map_option payload (h2 a) = map_option payload (h a))
           \<and> (\<forall>a. a \<notin> set (f # x # xs) \<longrightarrow> h2 a = h a)"
proof -
  from r have d: "distinct (f # x # xs)" and sg: "seg h (last (x # xs)) (f # x # xs) f"
    by (simp_all add: ring_def)
  from sg obtain nf where hf: "h f = Some nf" and pf: "prv nf = last (x # xs)" and nf: "nxt nf = x"
    and sgx: "seg h f (x # xs) f"
    by (auto split: option.splits)
  from sgx obtain nx where hx: "h x = Some nx" and px: "prv nx = f"
    and nx: "nxt nx = (case xs of [] \<Rightarrow> f | y # _ \<Rightarrow> y)" and sgxs: "seg h x xs f"
    by (auto split: option.splits)
  from d have xf: "x \<noteq> f" by auto
  show ?thesis
  proof (cases xs)
    case Nil
    define hF where "hF = (h(f \<mapsto> nf\<lparr>prv := f, nxt := f\<rparr>))(x := None)"
    have "list_del h x = Some ((h(f \<mapsto> nf\<lparr>prv := f, nxt := f\<rparr>))(x \<mapsto> nx\<lparr>nxt := LIST_POISON1, prv := LIST_POISON2\<rparr>))"
      using xf Nil by (auto simp: list_del_def set_next_def set_prev_def hx hf px nx)
    moreover have "kfree ((h(f \<mapsto> nf\<lparr>prv := f, nxt := f\<rparr>))(x \<mapsto> nx\<lparr>nxt := LIST_POISON1, prv := LIST_POISON2\<rparr>)) x = Some hF"
      by (simp add: kfree_def hF_def)
    moreover have "ring hF [f]"
      using xf by (simp add: ring_def hF_def)
    moreover have "hF x = None" by (simp add: hF_def)
    moreover have "\<forall>a. a \<noteq> x \<longrightarrow> map_option payload (hF a) = map_option payload (h a)"
      by (auto simp: hF_def payload_def hf)
    moreover have "\<forall>a. a \<notin> set (f # x # xs) \<longrightarrow> hF a = h a"
      by (auto simp: hF_def)
    ultimately show ?thesis using hx nx Nil by auto
  next
    case (Cons y ys)
    from sgxs Cons obtain ny where hy: "h y = Some ny" and py: "prv ny = x"
      by (auto split: option.splits)
    from d Cons have yf: "y \<noteq> f" and yx: "y \<noteq> x" and fn: "f \<notin> set (y # ys)"
      and xn: "x \<notin> set (y # ys)" and yn: "y \<notin> set ys"
      by auto
    define hF where "hF = (h(y \<mapsto> ny\<lparr>prv := f\<rparr>, f \<mapsto> nf\<lparr>nxt := y\<rparr>))(x := None)"
    have "list_del h x = Some (h(y \<mapsto> ny\<lparr>prv := f\<rparr>, f \<mapsto> nf\<lparr>nxt := y\<rparr>,
                                 x \<mapsto> nx\<lparr>nxt := LIST_POISON1, prv := LIST_POISON2\<rparr>))"
      using xf yf yx Cons by (auto simp: list_del_def set_next_def set_prev_def hx hf hy px nx)
    moreover have "kfree (h(y \<mapsto> ny\<lparr>prv := f\<rparr>, f \<mapsto> nf\<lparr>nxt := y\<rparr>,
                             x \<mapsto> nx\<lparr>nxt := LIST_POISON1, prv := LIST_POISON2\<rparr>)) x = Some hF"
      by (simp add: kfree_def hF_def)
    moreover have "ring hF (f # xs)"
    proof -
      have "seg (h(y \<mapsto> ny\<lparr>prv := f\<rparr>)) f (y # ys) f"
        using sgxs yn hy unfolding Cons by (intro seg_set_prv_head) auto
      then have "seg hF f (y # ys) f"
        unfolding hF_def using fn xn seg_upd_other by metis
      then show ?thesis
        using d pf Cons yf by (simp add: ring_def hF_def xf)
    qed
    moreover have "hF x = None" by (simp add: hF_def)
    moreover have "\<forall>a. a \<noteq> x \<longrightarrow> map_option payload (hF a) = map_option payload (h a)"
      by (auto simp: hF_def payload_def hf hy)
    moreover have "\<forall>a. a \<notin> set (f # x # xs) \<longrightarrow> hF a = h a"
      by (auto simp: hF_def Cons)
    ultimately show ?thesis using hx nx Cons by auto
  qed
qed


lemma free_entries_ring:
  "ring h (f # rest) \<Longrightarrow>
   \<exists>h'. list_for_each_entry_safe_free h f = Some h'
        \<and> (\<forall>a. a \<notin> set (f # rest) \<longrightarrow> h' a = h a)"
proof (induction rest arbitrary: h)
  case Nil
  then obtain nf where "h f = Some nf" "nxt nf = f"
    by (auto simp: ring_def split: option.splits)
  then have "list_for_each_entry_safe_free h f = Some h"
    by (simp add: list_for_each_entry_safe_free_def free_entries.simps)
  then show ?case by simp
next
  case (Cons x xs)
  from Cons.prems obtain nf where hf: "h f = Some nf" and nf: "nxt nf = x"
    by (auto simp: ring_def split: option.splits)
  from Cons.prems have xf: "x \<noteq> f" by (auto simp: ring_def)
  from del_second [OF Cons.prems] obtain h1 h2 nx where
    hx: "h x = Some nx" and nx: "nxt nx = hd (xs @ [f])" and ld: "list_del h x = Some h1"
    and kf: "kfree h1 x = Some h2" and r2: "ring h2 (f # xs)"
    and fr: "\<forall>a. a \<notin> set (f # x # xs) \<longrightarrow> h2 a = h a"
    by blast
  from r2 obtain nf2 where hf2: "h2 f = Some nf2" and nf2: "nxt nf2 = hd (xs @ [f])"
    by (cases xs) (auto simp: ring_def split: option.splits)
  have "list_for_each_entry_safe_free h f = free_entries f h x (hd (xs @ [f]))"
    by (simp add: list_for_each_entry_safe_free_def hf nf hx nx)
  also have "\<dots> = do { t \<leftarrow> h2 (hd (xs @ [f])); free_entries f h2 (hd (xs @ [f])) (nxt t) }"
    using xf by (subst free_entries.simps) (simp add: ld kf)
  also have "\<dots> = list_for_each_entry_safe_free h2 f"
    by (simp add: list_for_each_entry_safe_free_def hf2 nf2)
  finally have eq: "list_for_each_entry_safe_free h f = list_for_each_entry_safe_free h2 f" .
  from Cons.IH [OF r2] obtain h' where
    "list_for_each_entry_safe_free h2 f = Some h'" "\<forall>a. a \<notin> set (f # xs) \<longrightarrow> h' a = h2 a"
    by blast
  with eq fr show ?case by auto
qed

lemma payload_cong:
  "payload n = payload m \<Longrightarrow> event_of n = event_of m \<and> str_ok n = str_ok m"
  by (auto simp: payload_def event_of_def str_ok_def split: option.splits)

lemma same_payload:
  assumes "\<forall>a\<in>set ns. map_option payload (h' a) = map_option payload (h a)"
  shows "nodes_ok h' ns = nodes_ok h ns" and "contents h' ns = contents h ns"
proof -
  have *: "\<And>a. a \<in> set ns \<Longrightarrow>
     (case h' a of None \<Rightarrow> False | Some n \<Rightarrow> str_ok n) = (case h a of None \<Rightarrow> False | Some n \<Rightarrow> str_ok n)
     \<and> map_option event_of (h' a) = map_option event_of (h a)"
  proof -
    fix a assume "a \<in> set ns"
    with assms have "map_option payload (h' a) = map_option payload (h a)" by blast
    then show "(case h' a of None \<Rightarrow> False | Some n \<Rightarrow> str_ok n) = (case h a of None \<Rightarrow> False | Some n \<Rightarrow> str_ok n)
     \<and> map_option event_of (h' a) = map_option event_of (h a)"
      by (cases "h a"; cases "h' a") (auto dest: payload_cong)
  qed
  show "nodes_ok h' ns = nodes_ok h ns"
    unfolding nodes_ok_def list_all_iff using * by blast
  show "contents h' ns = contents h ns"
    unfolding contents_def using * by (intro map_cong) auto
qed


lemma ring_in_heap: "ring h ns \<Longrightarrow> a \<in> set ns \<Longrightarrow> \<exists>n. h a = Some n"
  unfolding ring_def using seg_dom by blast

lemma ring_upd_other: "a \<notin> set ns \<Longrightarrow> ring (h(a := v)) ns = ring h ns"
  by (simp add: ring_def seg_upd_other)

lemma INIT_LIST_HEAD_Some:
  "h l = Some n \<Longrightarrow> INIT_LIST_HEAD h l = Some (h(l \<mapsto> n\<lparr>nxt := l, prv := l\<rparr>))"
  by (simp add: INIT_LIST_HEAD_def set_next_def set_prev_def)

lemma ring_single: "h a = Some n \<Longrightarrow> nxt n = a \<Longrightarrow> prv n = a \<Longrightarrow> ring h [a]"
  by (simp add: ring_def)

lemma add_empty:
  assumes e: "first_aoa_event_node s = None" and q: "next_aoa_event_node s = None"
  shows "aoa_event_node_add t st sp (Some new) s =
           Some (True, s\<lparr>heap := (heap s)(new \<mapsto> \<lparr>ntype = t, str_type = st, str = sp, nxt = new, prv = new\<rparr>),
                         first_aoa_event_node := Some new, next_aoa_event_node := Some new,
                         last_aoa_event_node := Some new\<rparr>)"
  by (simp add: aoa_event_node_add_def e q INIT_LIST_HEAD_def set_next_def set_prev_def)

lemma add_connected:
  assumes f: "first_aoa_event_node s = Some f" and r: "ring (heap s) ns" and hd: "hd ns = f"
    and fresh: "heap s new = None"
  shows "\<exists>h'. aoa_event_node_add AOA_EVENT_CONNECTED_ACM st sp (Some new) s =
           Some (True, s\<lparr>heap := h',
                         first_aoa_event_node := Some new, next_aoa_event_node := Some new,
                         last_aoa_event_node := Some new\<rparr>)
          \<and> h' new = Some \<lparr>ntype = AOA_EVENT_CONNECTED_ACM, str_type = st, str = sp, nxt = new, prv = new\<rparr>"
proof -
  define node0 where "node0 = \<lparr>ntype = AOA_EVENT_CONNECTED_ACM, str_type = st, str = sp, nxt = 0, prv = 0\<rparr>"
  define h0 where "h0 = (heap s)(new \<mapsto> node0)"
  from r have ne: "ns \<noteq> []" by (simp add: ring_def)
  with hd obtain rest where ns: "ns = f # rest" by (cases ns) auto
  have nn: "new \<notin> set ns" using ring_in_heap [OF r] fresh by fastforce
  then have "ring h0 (f # rest)" using r by (simp add: h0_def ring_upd_other ns)
  from free_entries_ring [OF this] obtain h1 where
    l: "list_for_each_entry_safe_free h0 f = Some h1" and fr: "\<forall>a. a \<notin> set (f # rest) \<longrightarrow> h1 a = h0 a"
    by blast
  from fr nn ns have h1new: "h1 new = Some node0" by (simp add: h0_def)
  define h2 where "h2 = h1(new \<mapsto> node0\<lparr>nxt := new, prv := new\<rparr>)"
  have "aoa_event_node_add AOA_EVENT_CONNECTED_ACM st sp (Some new) s =
           Some (True, s\<lparr>heap := h2,
                         first_aoa_event_node := Some new, next_aoa_event_node := Some new,
                         last_aoa_event_node := Some new\<rparr>)"
    using l h1new
    by (simp add: aoa_event_node_add_def f INIT_LIST_HEAD_Some [of h1 new node0] h2_def
        flip: h0_def node0_def)
  moreover have "h2 new = Some \<lparr>ntype = AOA_EVENT_CONNECTED_ACM, str_type = st, str = sp,
                                  nxt = new, prv = new\<rparr>"
    by (simp add: h2_def node0_def)
  ultimately show ?thesis by blast
qed

lemma add_append:
  assumes f: "first_aoa_event_node s = Some f" and r: "ring (heap s) ns"
    and l: "last_aoa_event_node s = Some (last ns)"
    and fresh: "heap s new = None" and t: "t \<noteq> AOA_EVENT_CONNECTED_ACM"
  shows "\<exists>h'. aoa_event_node_add t st sp (Some new) s =
           Some (True, s\<lparr>heap := h', first_aoa_event_node := Some f,
                         next_aoa_event_node :=
                           (if next_aoa_event_node s = None then Some new else next_aoa_event_node s),
                         last_aoa_event_node := Some new\<rparr>)
          \<and> ring h' (ns @ [new])
          \<and> (\<forall>a. a \<noteq> new \<longrightarrow> map_option payload (h' a) = map_option payload (heap s a))
          \<and> map_option payload (h' new) = Some (t, st, sp)"
proof -
  define node0 where "node0 = \<lparr>ntype = t, str_type = st, str = sp, nxt = 0, prv = 0\<rparr>"
  define h0 where "h0 = (heap s)(new \<mapsto> node0)"
  define h2 where "h2 = h0(new \<mapsto> node0\<lparr>nxt := new, prv := new\<rparr>)"
  have nn: "new \<notin> set ns" using ring_in_heap [OF r] fresh by fastforce
  have i: "INIT_LIST_HEAD h0 new = Some h2"
    by (simp add: INIT_LIST_HEAD_Some h0_def h2_def)
  have "ring h2 ns" using r nn by (simp add: h2_def h0_def ring_upd_other)
  from list_add_ring [OF this nn, of "node0\<lparr>nxt := new, prv := new\<rparr>"] obtain h' where
    la: "list_add h2 new (last ns) = Some h'" and r': "ring h' (ns @ [new])"
    and pl: "\<forall>a. map_option payload (h' a) = map_option payload (h2 a)"
    by (auto simp: h2_def)
  have "aoa_event_node_add t st sp (Some new) s =
           Some (True, s\<lparr>heap := h', first_aoa_event_node := Some f,
                         next_aoa_event_node :=
                           (if next_aoa_event_node s = None then Some new else next_aoa_event_node s),
                         last_aoa_event_node := Some new\<rparr>)"
    using t i la by (simp add: aoa_event_node_add_def f l flip: h0_def node0_def)
  moreover have "\<forall>a. a \<noteq> new \<longrightarrow> map_option payload (h' a) = map_option payload (heap s a)"
    using pl by (simp add: h2_def h0_def)
  moreover have "map_option payload (h' new) = Some (t, st, sp)"
    using pl by (simp add: h2_def h0_def node0_def payload_def)
  ultimately show ?thesis using r' by blast
qed


subsection \<open>Pushing a node\<close>

lemma node_add_flags:
  assumes "aoa_event_node_add t st sp a s = Some (b, s')"
  shows "aoa_connected_acm s' = aoa_connected_acm s \<and> aoa_ctrl_open s' = aoa_ctrl_open s
   \<and> current_mode s' = current_mode s \<and> descr s' = descr s \<and> calls s' = calls s"
proof (cases a)
  case None
  with assms show ?thesis by (simp add: aoa_event_node_add_def)
next
  case (Some new)
  with assms obtain h3 f2 n2 where
    "s' = s\<lparr>heap := h3, first_aoa_event_node := f2, next_aoa_event_node := n2,
              last_aoa_event_node := Some new\<rparr>"
    by (auto simp: aoa_event_node_add_def Let_def bind_eq_Some_conv)
  then show ?thesis by simp
qed

lemma pending_snoc:
  assumes "new \<notin> set ns" and "case c of None \<Rightarrow> True | Some a \<Rightarrow> a \<in> set ns"
  shows "(case (if c = None then Some new else c) of None \<Rightarrow> [] | Some a \<Rightarrow> dropWhile (\<lambda>x. x \<noteq> a) (ns @ [new]))
         = (case c of None \<Rightarrow> [] | Some a \<Rightarrow> dropWhile (\<lambda>x. x \<noteq> a) ns) @ [new]"
proof (cases c)
  case None
  then show ?thesis using assms(1) by (simp add: dropWhile_append)
next
  case (Some a)
  with assms(2) have "a \<in> set ns" by simp
  then show ?thesis using Some by (simp add: dropWhile_append1)
qed

lemma node_add_queue:
  assumes q: "queue s ns" and fresh: "heap s new = None"
    and ok: "case sp of None \<Rightarrow> True | Some b \<Rightarrow> NUL \<in> set b \<and> length b \<le> AOA_MAX_STR_SIZE"
  shows "\<exists>s'. aoa_event_node_add t st sp (Some new) s = Some (True, s')
           \<and> queue s' (if t = AOA_EVENT_CONNECTED_ACM then [new] else ns @ [new])
           \<and> contents (heap s') (if t = AOA_EVENT_CONNECTED_ACM then [new] else ns @ [new]) =
               (if t = AOA_EVENT_CONNECTED_ACM then [] else contents (heap s) ns)
               @ [Some (event_of \<lparr>ntype = t, str_type = st, str = sp, nxt = 0, prv = 0\<rparr>)]
           \<and> pending s' (if t = AOA_EVENT_CONNECTED_ACM then [new] else ns @ [new]) =
               (if t = AOA_EVENT_CONNECTED_ACM then [] else pending s ns) @ [new]
           \<and> map_option payload (heap s' new) = Some (t, st, sp)
           \<and> (t = AOA_EVENT_CONNECTED_ACM \<longrightarrow>
                (\<exists>n. heap s' new = Some n \<and> nxt n = new \<and> prv n = new))"
proof -
  define node0 where "node0 = \<lparr>ntype = t, str_type = st, str = sp, nxt = 0, prv = 0\<rparr>"
  have ok0: "str_ok node0" using ok by (simp add: str_ok_def node0_def)
  have pc: "event_of n = event_of node0 \<and> str_ok n" if "payload n = (t, st, sp)" for n
  proof -
    from that have "payload n = payload node0" by (simp add: payload_def node0_def)
    from payload_cong [OF this] ok0 show ?thesis by simp
  qed
  show ?thesis
  proof (cases "first_aoa_event_node s")
    case None
    with q have ns: "ns = []" and nx: "next_aoa_event_node s = None"
      by (simp_all add: queue_def)
    define n1 where "n1 = \<lparr>ntype = t, str_type = st, str = sp, nxt = new, prv = new\<rparr>"
    have p1: "payload n1 = (t, st, sp)" by (simp add: payload_def n1_def)
    show ?thesis
      unfolding add_empty [OF None nx] ns
      using pc [OF p1] nx
      by (simp add: queue_def ring_def nodes_ok_def contents_def pending_def payload_def
          flip: n1_def node0_def) (simp add: n1_def)
  next
    case (Some f)
    with q have r: "ring (heap s) ns" and hd: "hd ns = f"
      and l: "last_aoa_event_node s = Some (last ns)"
      and c: "case next_aoa_event_node s of None \<Rightarrow> True | Some c \<Rightarrow> c \<in> set ns"
      and nok: "nodes_ok (heap s) ns"
      by (simp_all add: queue_def)
    have nn: "new \<notin> set ns" using ring_in_heap [OF r] fresh by fastforce
    from r have ne: "ns \<noteq> []" by (simp add: ring_def)
    show ?thesis
    proof (cases "t = AOA_EVENT_CONNECTED_ACM")
      case True
      from add_connected [OF Some r hd fresh, of st sp] obtain h' where
        run: "aoa_event_node_add AOA_EVENT_CONNECTED_ACM st sp (Some new) s =
           Some (True, s\<lparr>heap := h',
                         first_aoa_event_node := Some new, next_aoa_event_node := Some new,
                         last_aoa_event_node := Some new\<rparr>)"
        and hn: "h' new = Some \<lparr>ntype = AOA_EVENT_CONNECTED_ACM, str_type = st, str = sp, nxt = new, prv = new\<rparr>"
        by blast
      have p1: "payload \<lparr>ntype = AOA_EVENT_CONNECTED_ACM, str_type = st, str = sp, nxt = new, prv = new\<rparr> = (t, st, sp)"
        by (simp add: payload_def True)
      show ?thesis
        using pc [OF p1] True
        by (simp add: run hn queue_def ring_def nodes_ok_def contents_def pending_def payload_def
            node0_def)
    next
      case False
      from add_append [OF Some r l fresh False, of st sp] obtain h' where
        run: "aoa_event_node_add t st sp (Some new) s =
           Some (True, s\<lparr>heap := h', first_aoa_event_node := Some f,
                         next_aoa_event_node :=
                           (if next_aoa_event_node s = None then Some new else next_aoa_event_node s),
                         last_aoa_event_node := Some new\<rparr>)"
        and r': "ring h' (ns @ [new])"
        and pl: "\<forall>a. a \<noteq> new \<longrightarrow> map_option payload (h' a) = map_option payload (heap s a)"
        and pn: "map_option payload (h' new) = Some (t, st, sp)"
        by blast
      from pn obtain n1 where hn: "h' new = Some n1" and p1: "payload n1 = (t, st, sp)" by auto
      have same: "\<forall>a\<in>set ns. map_option payload (h' a) = map_option payload (heap s a)"
        using pl nn by auto
      have nok': "nodes_ok h' (ns @ [new])"
        using same_payload(1) [OF same] nok pc [OF p1] by (simp add: nodes_ok_def hn)
      have con': "contents h' (ns @ [new]) = contents (heap s) ns @ [Some (event_of node0)]"
        using same_payload(2) [OF same] pc [OF p1] by (simp add: contents_def hn)
      have cur: "case (if next_aoa_event_node s = None then Some new else next_aoa_event_node s) of
                   None \<Rightarrow> True | Some c \<Rightarrow> c \<in> set (ns @ [new])"
        using c by (auto split: option.splits)
      show ?thesis
        using False r' nok' con' cur ne hd pn pending_snoc [OF nn c]
        by (simp add: run queue_def pending_def flip: node0_def)
    qed
  qed
qed

subsection \<open>Reading at the cursor\<close>

lemma seg_nxt:
  "seg h p (pre @ a # post) q \<Longrightarrow>
   \<exists>n. h a = Some n \<and> nxt n = (case post of [] \<Rightarrow> q | y # _ \<Rightarrow> y)"
  by (induction pre arbitrary: p) (auto split: option.splits)

lemma ring_nxt_in:
  assumes r: "ring h ns" and a: "a \<in> set ns" and h: "h a = Some n"
  shows "nxt n \<in> set ns"
proof -
  from a obtain pre post where ns: "ns = pre @ a # post" by (auto simp: in_set_conv_decomp)
  from r have "seg h (last ns) (pre @ a # post) (hd ns)" and ne: "ns \<noteq> []"
    by (simp_all add: ring_def ns)
  from seg_nxt [OF this(1)] h have "nxt n = (case post of [] \<Rightarrow> hd ns | y # _ \<Rightarrow> y)" by simp
  moreover have "hd ns \<in> set ns" using ne by (rule hd_in_set)
  moreover have "set post \<subseteq> set ns" by (auto simp: ns)
  ultimately show ?thesis by (cases post) auto
qed

lemma strlen_take:
  assumes "NUL \<in> set b"
  shows "strlen b = Some (length (takeWhile (\<lambda>c. c \<noteq> NUL) b))"
    and "take (length (takeWhile (\<lambda>c. c \<noteq> NUL) b) + 1) b = takeWhile (\<lambda>c. c \<noteq> NUL) b @ [NUL]"
    and "length (takeWhile (\<lambda>c. c \<noteq> NUL) b) + 1 \<le> length b"
proof -
  let ?P = "\<lambda>c. c \<noteq> NUL"
  from assms have "dropWhile ?P b \<noteq> []" by (simp add: dropWhile_eq_Nil_conv) 
  then obtain r where d: "dropWhile ?P b = NUL # r"
    using hd_dropWhile [of ?P b] by (cases "dropWhile ?P b") auto
  have b: "b = takeWhile ?P b @ NUL # r"
    using takeWhile_dropWhile_id [of ?P b] d by simp
  show "strlen b = Some (length (takeWhile ?P b))" using assms by (simp add: strlen_def)
  show "take (length (takeWhile ?P b) + 1) b = takeWhile ?P b @ [NUL]"
    by (subst (2) b) simp
  show "length (takeWhile ?P b) + 1 \<le> length b"
    by (subst (2) b) simp
qed

lemma pending_decomp:
  assumes "pending s ns = c # rest"
  shows "next_aoa_event_node s = Some c" and "ns = takeWhile (\<lambda>a. a \<noteq> c) ns @ c # rest"
proof -
  from assms obtain c' where n: "next_aoa_event_node s = Some c'"
    and d: "dropWhile (\<lambda>a. a \<noteq> c') ns = c # rest"
    by (auto simp: pending_def split: option.splits)
  from d hd_dropWhile [of "\<lambda>a. a \<noteq> c'" ns] have "c = c'" by auto
  with n show "next_aoa_event_node s = Some c" by simp
  from d \<open>c = c'\<close> takeWhile_dropWhile_id [of "\<lambda>a. a \<noteq> c" ns]
  show "ns = takeWhile (\<lambda>a. a \<noteq> c) ns @ c # rest" by simp
qed

lemma read_step:
  assumes q: "queue s ns" and p: "pending s ns = c # rest" and buf: "buf \<noteq> None"
  defines "s' \<equiv> s\<lparr>next_aoa_event_node := (case rest of [] \<Rightarrow> None | y # _ \<Rightarrow> Some y)\<rparr>"
  shows "\<exists>e. read_event buf signal s = Some (e, s') \<and> map_option event_of (heap s c) = Some e"
    and "queue s' ns" and "pending s' ns = rest"
proof -
  note pd = pending_decomp [OF p]
  define pre where "pre = takeWhile (\<lambda>a. a \<noteq> c) ns"
  from pd(2) have ns: "ns = pre @ c # rest" by (simp add: pre_def)
  then have ne: "ns \<noteq> []" by auto
  with q obtain f where f: "first_aoa_event_node s = Some f"
    by (cases "first_aoa_event_node s") (auto simp: queue_def)
  with q have r: "ring (heap s) ns" and hd: "hd ns = f"
    and l: "last_aoa_event_node s = Some (last ns)" and nok: "nodes_ok (heap s) ns"
    by (simp_all add: queue_def)
  from r have d: "distinct ns" and sg: "seg (heap s) (last ns) (pre @ c # rest) (hd ns)"
    by (simp_all add: ring_def ns)
  from seg_nxt [OF sg] obtain n where hc: "heap s c = Some n"
    and nx: "nxt n = (case rest of [] \<Rightarrow> hd ns | y # _ \<Rightarrow> y)"
    by blast
  from nok hc have sok: "str_ok n" by (auto simp: nodes_ok_def ns)
  have lastc: "last ns = c \<longleftrightarrow> rest = []"
    using d by (cases rest) (auto simp: ns)
  have adv: "advance_next n s = s'"
    using lastc nx by (cases rest) (auto simp: advance_next_def l pd(1) s'_def)
  have len: "unat (of_nat sizeof_aoa_event :: size_t) = sizeof_aoa_event"
    by (simp add: sizeof_aoa_event_def sizeof_enum_def AOA_MAX_STR_SIZE_def)
  show "\<exists>e. read_event buf signal s = Some (e, s') \<and> map_option event_of (heap s c) = Some e"
  proof (cases "str n")
    case None
    then show ?thesis
      using buf by (simp add: read_event_def aoa_read_def len pd(1) hc adv event_of_def)
  next
    case (Some b)
    with sok have nul: "NUL \<in> set b" and lb: "length b \<le> AOA_MAX_STR_SIZE"
      by (simp_all add: str_ok_def)
    note st = strlen_take [OF nul]
    from st(3) lb have "\<not> AOA_MAX_STR_SIZE < length (takeWhile (\<lambda>c. c \<noteq> NUL) b) + 1" by simp
    then show ?thesis
      using buf st(2)
      by (simp add: read_event_def aoa_read_def len pd(1) hc adv event_of_def Some st(1) Let_def)
  qed
  show "queue s' ns"
    using q f by (cases rest) (auto simp: queue_def s'_def ns)
  show "pending s' ns = rest"
  proof (cases rest)
    case Nil
    then show ?thesis by (simp add: pending_def s'_def)
  next
    case (Cons y ys)
    with d have "\<forall>a\<in>set (pre @ [c]). a \<noteq> y" by (auto simp: ns)
    then have "dropWhile (\<lambda>a. a \<noteq> y) ((pre @ [c]) @ y # ys) = y # ys"
      by (subst dropWhile_append2) auto
    then show ?thesis by (simp add: pending_def s'_def Cons ns)
  qed
qed

lemma pending_Nil_next:
  assumes "queue s ns" "pending s ns = []"
  shows "next_aoa_event_node s = None"
proof (cases "next_aoa_event_node s")
  case None then show ?thesis .
next
  case (Some c)
  with assms(1) have "c \<in> set ns"
    by (cases "first_aoa_event_node s") (auto simp: queue_def)
  with assms(2) Some show ?thesis
    by (auto simp: pending_def dropWhile_eq_Nil_conv)
qed

lemma reads_pending:
  assumes "queue s ns" and "buf \<noteq> None"
  shows "\<exists>evs. reads (length (pending s ns)) buf signal s
                  = Some (evs, s\<lparr>next_aoa_event_node := None\<rparr>)
               \<and> map Some evs = contents (heap s) (pending s ns)"
  using assms(1)
proof (induction "pending s ns" arbitrary: s)
  case Nil
  from pending_Nil_next [OF Nil.prems Nil.hyps [symmetric]]
  have "s\<lparr>next_aoa_event_node := None\<rparr> = s" by simp
  with Nil.hyps [symmetric] show ?case by (simp add: contents_def)
next
  case (Cons c rest)
  define s' where "s' = s\<lparr>next_aoa_event_node := (case rest of [] \<Rightarrow> None | y # _ \<Rightarrow> Some y)\<rparr>"
  note rs0 = read_step [OF Cons.prems Cons.hyps(2) [symmetric] assms(2)]
  note rs = rs0(1) [of signal, folded s'_def] rs0(2,3) [folded s'_def]
  from rs(1) obtain e where re: "read_event buf signal s = Some (e, s')"
    and ev: "map_option event_of (heap s c) = Some e" by blast
  from Cons.hyps(1) [OF rs(3) [symmetric] rs(2)] obtain evs where
    "reads (length (pending s' ns)) buf signal s' = Some (evs, s'\<lparr>next_aoa_event_node := None\<rparr>)"
    "map Some evs = contents (heap s') (pending s' ns)"
    by blast
  then have "reads (length (pending s ns)) buf signal s = Some (e # evs, s\<lparr>next_aoa_event_node := None\<rparr>)"
    and "map Some (e # evs) = contents (heap s) (pending s ns)"
    using re ev [symmetric] rs(3) by (simp_all add: Cons.hyps(2) [symmetric] s'_def contents_def)
  then show ?case by blast
qed

subsection \<open>The producer entry points\<close>

lemma str_mem_len:
  fixes len :: size_t
  assumes "unat len < 2 ^ 32 - 1"
  shows "unat (min (len + 1) (of_nat AOA_MAX_STR_SIZE)) = min (unat len + 1) 256"
    and "unat (min (len + 1) (of_nat AOA_MAX_STR_SIZE) - 1) = min (unat len) 255"
proof -
  from assms have l1: "unat (len + 1) = unat len + 1"
    by (simp add: unat_word_ariths)
  have m: "unat (min (len + 1) (256 :: size_t)) = min (unat len + 1) 256"
    using l1 by (simp add: min_def word_le_nat_alt)
  then show "unat (min (len + 1) (of_nat AOA_MAX_STR_SIZE)) = min (unat len + 1) 256"
    by (simp add: AOA_MAX_STR_SIZE_def)
  have "min (len + 1) (256 :: size_t) \<noteq> 0"
    using m by (metis Suc_eq_plus1 min_Suc_numeral nat.simps(3) unat_0 numeral_eq_Suc pred_numeral_simps(3) min.commute)
  then have "unat (min (len + 1) (256 :: size_t) - 1) = unat (min (len + 1) (256 :: size_t)) - 1"
    by (simp add: unat_minus_one)
  with m show "unat (min (len + 1) (of_nat AOA_MAX_STR_SIZE) - 1) = min (unat len) 255"
    by (simp add: AOA_MAX_STR_SIZE_def)
qed


lemma takeWhile_snoc_NUL:
  "takeWhile (\<lambda>c. c \<noteq> NUL) (xs @ [NUL]) = takeWhile (\<lambda>c. c \<noteq> NUL) xs"
  by (induction xs) auto

lemma str_received_run:
  assumes v: "unat len \<le> length strbuf" "unat len < 2 ^ 32 - 1"
  shows "aoa_str_received_event_add ty strbuf len True new_node s =
           map_option snd
             (aoa_event_node_add AOA_EVENT_STRING_RECEIVED (Some ty)
                (Some (take (min (unat len) 255) strbuf @ [NUL])) new_node s)"
proof -
  have "\<not> min (unat len + 1) 256 < min (unat len) 255"
    and "\<not> length strbuf < min (unat len) 255"
    and "\<not> min (unat len + 1) 256 \<le> min (unat len) 255"
    using v(1) by auto
  then show ?thesis
    by (simp only: aoa_str_received_event_add_def Let_def str_mem_len [OF v(2)] simp_thms if_False
        if_True)
qed

lemma push_queue:
  assumes q: "queue s ns" and fresh: "heap s new = None" and v: "valid_call c"
    and acc: "accepted c str_alloc"
  shows "\<exists>s'. push c str_alloc (Some new) s = Some s'
           \<and> queue s' (if event_type (record_of c) = AOA_EVENT_CONNECTED_ACM then [new] else ns @ [new])
           \<and> contents (heap s')
                (if event_type (record_of c) = AOA_EVENT_CONNECTED_ACM then [new] else ns @ [new]) =
               (if event_type (record_of c) = AOA_EVENT_CONNECTED_ACM then [] else contents (heap s) ns)
               @ [Some (record_of c)]
           \<and> pending s'
                (if event_type (record_of c) = AOA_EVENT_CONNECTED_ACM then [new] else ns @ [new]) =
               (if event_type (record_of c) = AOA_EVENT_CONNECTED_ACM then [] else pending s ns) @ [new]"
proof (cases c)
  case (Event_add t)
  from node_add_queue [OF q fresh, of None t None] obtain s' where
    "aoa_event_node_add t None None (Some new) s = Some (True, s')"
    "queue s' (if t = AOA_EVENT_CONNECTED_ACM then [new] else ns @ [new])"
    "contents (heap s') (if t = AOA_EVENT_CONNECTED_ACM then [new] else ns @ [new]) =
               (if t = AOA_EVENT_CONNECTED_ACM then [] else contents (heap s) ns)
               @ [Some (event_of \<lparr>ntype = t, str_type = None, str = None, nxt = 0, prv = 0\<rparr>)]"
    "pending s' (if t = AOA_EVENT_CONNECTED_ACM then [new] else ns @ [new]) =
               (if t = AOA_EVENT_CONNECTED_ACM then [] else pending s ns) @ [new]"
    by auto
  then show ?thesis
    by (intro exI [of _ s']) (simp add: Event_add aoa_event_add_def event_of_def)
next
  case (Str_received ty strbuf len)
  with v have v': "unat len \<le> length strbuf" "unat len < 2 ^ 32 - 1" by simp_all
  from acc Str_received have sa: "str_alloc = True" by simp
  define b where "b = take (min (unat len) 255) strbuf @ [NUL]"
  have ok: "case Some b of None \<Rightarrow> True | Some b \<Rightarrow> NUL \<in> set b \<and> length b \<le> AOA_MAX_STR_SIZE"
    by (simp add: b_def AOA_MAX_STR_SIZE_def)
  from node_add_queue [OF q fresh ok, of AOA_EVENT_STRING_RECEIVED "Some ty"] obtain s' where
    "aoa_event_node_add AOA_EVENT_STRING_RECEIVED (Some ty) (Some b) (Some new) s = Some (True, s')"
    "queue s' (ns @ [new])"
    "contents (heap s') (ns @ [new]) = contents (heap s) ns
       @ [Some (event_of \<lparr>ntype = AOA_EVENT_STRING_RECEIVED, str_type = Some ty, str = Some b,
                           nxt = 0, prv = 0\<rparr>)]"
    "pending s' (ns @ [new]) = pending s ns @ [new]"
    by auto
  then show ?thesis
    by (intro exI [of _ s'])
       (simp add: Str_received sa str_received_run [OF v'] event_of_def AOA_MAX_STR_SIZE_def
          takeWhile_snoc_NUL flip: b_def, simp add: b_def takeWhile_snoc_NUL)
qed

lemma push_dropped:
  assumes v: "valid_call c" and rej: "new_node = None \<or> \<not> accepted c str_alloc"
  shows "push c str_alloc new_node s = Some s"
proof (cases c)
  case (Event_add t)
  with rej show ?thesis by (simp add: aoa_event_add_def aoa_event_node_add_def)
next
  case (Str_received ty strbuf len)
  with v have v': "unat len \<le> length strbuf" "unat len < 2 ^ 32 - 1" by simp_all
  show ?thesis
  proof (cases str_alloc)
    case True
    with rej Str_received have "new_node = None" by simp
    then show ?thesis
      using True by (simp add: Str_received str_received_run [OF v'] aoa_event_node_add_def)
  next
    case False
    then show ?thesis by (simp add: Str_received aoa_str_received_event_add_def Let_def)
  qed
qed

subsection \<open>Sequences of calls\<close>

lemma switch_mode_fields:
  "heap (snd (switch_mode m r s)) = heap s
   \<and> first_aoa_event_node (snd (switch_mode m r s)) = first_aoa_event_node s
   \<and> last_aoa_event_node (snd (switch_mode m r s)) = last_aoa_event_node s
   \<and> next_aoa_event_node (snd (switch_mode m r s)) = next_aoa_event_node s
   \<and> aoa_connected_acm (snd (switch_mode m r s)) = aoa_connected_acm s
   \<and> aoa_ctrl_open (snd (switch_mode m r s)) = aoa_ctrl_open s"
  by (cases m) (simp_all add: switch_mode_def Let_def)

lemma queue_cong:
  assumes "queue s ns" "heap s' = heap s" "first_aoa_event_node s' = first_aoa_event_node s"
    "last_aoa_event_node s' = last_aoa_event_node s"
    "next_aoa_event_node s' = next_aoa_event_node s"
  shows "queue s' ns"
  using assms(1) unfolding queue_def assms(2-) .

lemma pending_at_head:
  assumes "queue s ns"
  shows "pending (s\<lparr>next_aoa_event_node := first_aoa_event_node s\<rparr>) ns = ns"
    and "queue (s\<lparr>next_aoa_event_node := first_aoa_event_node s\<rparr>) ns"
proof -
  show "pending (s\<lparr>next_aoa_event_node := first_aoa_event_node s\<rparr>) ns = ns"
  proof (cases "first_aoa_event_node s")
    case None
    with assms show ?thesis by (simp add: queue_def pending_def)
  next
    case (Some f)
    with assms have "ns \<noteq> []" "hd ns = f" by (simp_all add: queue_def ring_def)
    then show ?thesis using Some by (cases ns) (simp_all add: pending_def)
  qed
  show "queue (s\<lparr>next_aoa_event_node := first_aoa_event_node s\<rparr>) ns"
    using assms by (cases "first_aoa_event_node s") (auto simp: queue_def ring_def)
qed

lemma open_queue:
  assumes q: "queue s ns" and o: "aoa_open r s = (0, s')"
  shows "queue s' ns" and "heap s' = heap s" and "pending s' ns = ns"
    and "next_aoa_event_node s' = first_aoa_event_node s'"
proof -
  from o have z: "aoa_ctrl_open s = 0"
    by (auto simp: aoa_open_def EBUSY_def split: if_splits)
  define s1 where "s1 = snd (switch_mode MODE_ACM r (s\<lparr>aoa_ctrl_open := 1\<rparr>))"
  note f = switch_mode_fields [of MODE_ACM r "s\<lparr>aoa_ctrl_open := 1\<rparr>", folded s1_def]
  from o z have s': "s' = s1\<lparr>next_aoa_event_node := first_aoa_event_node s1\<rparr>"
    by (auto simp: aoa_open_def s1_def split: prod.splits if_splits)
  have q1: "queue s1 ns" using q f by (intro queue_cong [OF q]) simp_all
  from pending_at_head [OF q1] show "queue s' ns" "pending s' ns = ns" by (simp_all add: s')
  show "heap s' = heap s" using f by (simp add: s')
  show "next_aoa_event_node s' = first_aoa_event_node s'" by (simp add: s')
qed

lemma read_event_queue:
  assumes q: "queue s ns" and r: "read_event buf signal s = Some (e, s')"
  shows "queue s' ns \<and> heap s' = heap s"
proof -
  from r obtain c n where c: "next_aoa_event_node s = Some c" and n: "heap s c = Some n"
    and s': "s' = advance_next n s"
    by (auto simp: read_event_def aoa_read_def Let_def bind_eq_Some_conv
        split: if_splits option.splits read_result.splits prod.splits)
  from q c obtain f where f: "first_aoa_event_node s = Some f"
    by (cases "first_aoa_event_node s") (auto simp: queue_def)
  with q c have rg: "ring (heap s) ns" and cin: "c \<in> set ns" by (simp_all add: queue_def)
  from ring_nxt_in [OF rg cin n] have "nxt n \<in> set ns" .
  then show ?thesis
    using q f by (auto simp: s' advance_next_def queue_def)
qed

lemma reads_queue:
  "queue s ns \<Longrightarrow> reads k buf signal s = Some (evs, s') \<Longrightarrow> queue s' ns \<and> heap s' = heap s"
proof (induction k arbitrary: s evs)
  case 0
  then show ?case by simp
next
  case (Suc k)
  from Suc.prems(2) obtain e s1 es where r: "read_event buf signal s = Some (e, s1)"
    and rs: "reads k buf signal s1 = Some (es, s')"
    by (auto simp: bind_eq_Some_conv)
  from read_event_queue [OF Suc.prems(1) r] have "queue s1 ns" "heap s1 = heap s" by simp_all
  with Suc.IH [OF this(1) rs] show ?case by simp
qed

lemma enqueued_dropped:
  "new_node = None \<or> \<not> accepted c str_alloc \<Longrightarrow>
   enqueued ((c, str_alloc, new_node) # cs) = enqueued cs"
  by (cases new_node) auto

lemma pushes_log:
  assumes "queue s ns" and "contents (heap s) ns = map Some L" and "fresh_allocs cs s"
    and "list_all (\<lambda>(c, al). valid_call c) cs"
  shows "\<exists>s' ns'. pushes cs s = Some s' \<and> queue s' ns'
            \<and> contents (heap s') ns' =
                map Some (survivors L (map (\<lambda>(c, a). record_of c) (enqueued cs)))"
  using assms
proof (induction cs arbitrary: s ns L)
  case Nil
  then show ?case by (auto simp: survivors_def)
next
  case (Cons x cs)
  obtain c sa node where x: "x = (c, sa, node)" by (cases x)
  from Cons.prems(4) x have v: "valid_call c" and vs: "list_all (\<lambda>(c, al). valid_call c) cs"
    by simp_all
  show ?case
  proof (cases "node = None \<or> \<not> accepted c sa")
    case True
    from push_dropped [OF v True] have p: "push c sa node s = Some s" .
    with Cons.prems(3) x have fr1: "fresh_allocs cs s" by simp
    from Cons.IH [OF Cons.prems(1,2) fr1 vs] show ?thesis
      by (simp add: x p enqueued_dropped [OF True])
  next
    case False
    then obtain a where node: "node = Some a" and acc: "accepted c sa" by auto
    from Cons.prems(3) x node obtain s1 where fr: "heap s a = None"
      and p: "push c sa (Some a) s = Some s1" and fr1: "fresh_allocs cs s1"
      by (auto split: option.splits)
    define ns1 where
      "ns1 = (if event_type (record_of c) = AOA_EVENT_CONNECTED_ACM then [a] else ns @ [a])"
    from push_queue [OF Cons.prems(1) fr v acc] p have q1: "queue s1 ns1"
      and c1: "contents (heap s1) ns1 =
                 (if event_type (record_of c) = AOA_EVENT_CONNECTED_ACM then []
                  else contents (heap s) ns) @ [Some (record_of c)]"
      by (auto simp: ns1_def)
    from c1 have c1': "contents (heap s1) ns1 = map Some (compact L (record_of c))"
      by (simp add: Cons.prems(2) compact_def)
    from Cons.IH [OF q1 c1' fr1 vs] obtain s' ns' where
      "pushes cs s1 = Some s'" "queue s' ns'"
      "contents (heap s') ns' =
         map Some (survivors (compact L (record_of c)) (map (\<lambda>(c, a). record_of c) (enqueued cs)))"
      by blast
    then show ?thesis using p acc by (auto simp: x node survivors_def)
  qed
qed

lemma pushes_pending:
  assumes "queue s ns" and "fresh_allocs cs s"
    and "list_all (\<lambda>(c, al). valid_call c \<and> c \<noteq> Event_add AOA_EVENT_CONNECTED_ACM) cs"
  shows "\<exists>s'. pushes cs s = Some s' \<and> queue s' (ns @ map snd (enqueued cs))
            \<and> pending s' (ns @ map snd (enqueued cs)) = pending s ns @ map snd (enqueued cs)
            \<and> contents (heap s') (ns @ map snd (enqueued cs)) =
                contents (heap s) ns @ map (\<lambda>(c, a). Some (record_of c)) (enqueued cs)"
  using assms
proof (induction cs arbitrary: s ns)
  case Nil
  then show ?case by simp
next
  case (Cons x cs)
  obtain c sa node where x: "x = (c, sa, node)" by (cases x)
  from Cons.prems(3) x have v: "valid_call c" and nc: "c \<noteq> Event_add AOA_EVENT_CONNECTED_ACM"
    and vs: "list_all (\<lambda>(c, al). valid_call c \<and> c \<noteq> Event_add AOA_EVENT_CONNECTED_ACM) cs"
    by simp_all
  show ?case
  proof (cases "node = None \<or> \<not> accepted c sa")
    case True
    from push_dropped [OF v True] have p: "push c sa node s = Some s" .
    with Cons.prems(2) x have fr1: "fresh_allocs cs s" by simp
    from Cons.IH [OF Cons.prems(1) fr1 vs] show ?thesis
      by (simp add: x p enqueued_dropped [OF True])
  next
    case False
    then obtain a where node: "node = Some a" and acc: "accepted c sa" by auto
    from Cons.prems(2) x node obtain s1 where fr: "heap s a = None"
      and p: "push c sa (Some a) s = Some s1" and fr1: "fresh_allocs cs s1"
      by (auto split: option.splits)
    from nc have nc': "event_type (record_of c) \<noteq> AOA_EVENT_CONNECTED_ACM"
      by (cases c) simp_all
    from push_queue [OF Cons.prems(1) fr v acc] p nc' have q1: "queue s1 (ns @ [a])"
      and c1: "contents (heap s1) (ns @ [a]) = contents (heap s) ns @ [Some (record_of c)]"
      and p1: "pending s1 (ns @ [a]) = pending s ns @ [a]"
      by auto
    from Cons.IH [OF q1 fr1 vs] obtain s' where
      "pushes cs s1 = Some s'" "queue s' ((ns @ [a]) @ map snd (enqueued cs))"
      "pending s' ((ns @ [a]) @ map snd (enqueued cs)) =
         pending s1 (ns @ [a]) @ map snd (enqueued cs)"
      "contents (heap s') ((ns @ [a]) @ map snd (enqueued cs)) =
         contents (heap s1) (ns @ [a]) @ map (\<lambda>(c, a). Some (record_of c)) (enqueued cs)"
      by blast
    then show ?thesis using p c1 p1 acc by (auto simp: x node)
  qed
qed

lemma pending_suffix: "\<exists>pre. ns = pre @ pending s ns"
proof (cases "next_aoa_event_node s")
  case None
  then show ?thesis by (simp add: pending_def)
next
  case (Some c)
  have "ns = takeWhile (\<lambda>a. a \<noteq> c) ns @ dropWhile (\<lambda>a. a \<noteq> c) ns" by simp
  then show ?thesis using Some unfolding pending_def by (simp only: option.case) blast
qed

lemma contents_suffix:
  assumes "contents h' ((pre @ p) @ m) = contents h (pre @ p) @ r"
  shows "contents h' (p @ m) = contents h p @ r"
proof -
  from assms have "contents h' pre @ contents h' (p @ m) = contents h pre @ (contents h p @ r)"
    by (simp add: contents_def)
  moreover have "length (contents h' pre) = length (contents h pre)" by (simp add: contents_def)
  ultimately show ?thesis by (metis append_eq_append_conv)
qed

subsection \<open>The example states\<close>

lemmas eval_defs =
  aoa_event_add_def aoa_str_received_event_add_def aoa_event_node_add_def
  list_for_each_entry_safe_free_def list_add_def list_add_between_def list_del_def kfree_def
  set_next_def set_prev_def INIT_LIST_HEAD_def AOA_MAX_STR_SIZE_def init_state_def
  read_event_def aoa_read_def advance_next_def strlen_def sizeof_aoa_event_def sizeof_enum_def
  NUL_def free_entries.simps LIST_POISON1_def LIST_POISON2_def

lemma two_events_state_reached:
  "do { s1 \<leftarrow> pushes [(Str_received AOA_STRING_MODEL ''Pixel'' 5, True, Some 1),
                       (Event_add AOA_EVENT_START_REQUESTED, True, Some 2)] init_state;
        (e, s2) \<leftarrow> read_event (Some 0) False s1;
        Some s2 } = Some two_events_state"
  by (simp add: eval_defs two_events_state_def fun_upd_twist)

lemma two_events_queue: "queue two_events_state [1, 2]"
  by (simp add: two_events_state_def queue_def ring_def nodes_ok_def str_ok_def
      AOA_MAX_STR_SIZE_def init_state_def)

lemma two_events_free: "heap two_events_state 3 = None"
  by (simp add: two_events_state_def init_state_def)

lemma init_queue: "queue init_state []"
  by (simp add: queue_def init_state_def)

lemma queue_single:
  assumes "queue s [a]"
  shows "first_aoa_event_node s = Some a" and "last_aoa_event_node s = Some a"
  using assms by (cases "first_aoa_event_node s"; simp add: queue_def)+

subsection \<open>The mode controller\<close>

lemma switch_mode_probe_failure:
  assumes "current_mode s \<noteq> target" "target \<noteq> MODE_NONE" "probe_ret \<noteq> 0"
  shows "fst (switch_mode target probe_ret s) = probe_ret"
    and "current_mode (snd (switch_mode target probe_ret s)) = current_mode s"
  using assms by (cases target; simp add: switch_mode_def Let_def)+

text \<open>
  C1. A switch to another mode whose registration fails in \<^verbatim>\<open>usb_composite_probe\<close>
  returns the error, and the recorded mode should then be \<open>MODE_NONE\<close>, nothing being
  registered any more. It is not: \<^verbatim>\<open>switch_mode\<close> jumps to \<^verbatim>\<open>done\<close> before it assigns
  \<open>current_mode\<close>. From the ACM personality, a switch to AOA whose registration fails
  with \<open>-19\<close> unregisters the ACM driver, returns \<open>-19\<close>, and still records
  \<open>MODE_ACM\<close>, so that a later switch to ACM is taken for a no-op and registers nothing.
\<close>

theorem switch_mode_probe_failure_keeps_stale_mode:
  "current_mode acm_state = MODE_ACM
   \<and> fst (switch_mode MODE_AOA (- 19) acm_state) = - 19
   \<and> current_mode (snd (switch_mode MODE_AOA (- 19) acm_state)) = MODE_ACM
   \<and> calls (snd (switch_mode MODE_AOA (- 19) acm_state)) =
       [usb_composite_probe gs_bind_acm, usb_composite_unregister, gserial_cleanup,
        usb_composite_probe gs_bind_aoa]
   \<and> switch_mode MODE_ACM 0 (snd (switch_mode MODE_AOA (- 19) acm_state)) =
       (0, snd (switch_mode MODE_AOA (- 19) acm_state))"
  by (simp add: acm_state_def switch_mode_def init_state_def Let_def)

text \<open>
  C4. A switch to the mode that is already current returns 0 and leaves the whole state
  as it was: the recorded mode, and the log of calls into the composite framework, to
  which neither an unregistration nor a registration is added.
\<close>

theorem switch_mode_same_mode_noop:
  "switch_mode (current_mode s) probe_ret s = (0, s)
   \<and> calls (snd (switch_mode (current_mode s) probe_ret s)) = calls s
   \<and> current_mode (snd (switch_mode (current_mode s) probe_ret s)) = current_mode s"
  by (simp add: switch_mode_def)

theorem switch_mode_same_mode_noop_witness:
  "current_mode acm_state = MODE_ACM \<and> switch_mode MODE_ACM (- 19) acm_state = (0, acm_state)"
proof -
  have m: "current_mode acm_state = MODE_ACM"
    by (simp add: acm_state_def switch_mode_def init_state_def Let_def)
  from switch_mode_same_mode_noop [of acm_state "- 19"] show ?thesis
    unfolding m by (simp add: m)
qed

text \<open>
  C9. \<^verbatim>\<open>reset_mode\<close> never changes the recorded mode. With no personality it returns
  0 and touches nothing; otherwise it unregisters, cleans up and registers again with the
  bind function of the recorded mode, and returns what the registration returned, the
  recorded mode staying the same whether that is 0 or an error.
\<close>

theorem reset_mode_keeps_current_mode:
  "current_mode (snd (reset_mode probe_ret s)) = current_mode s
   \<and> (if current_mode s = MODE_NONE then reset_mode probe_ret s = (0, s)
      else fst (reset_mode probe_ret s) = probe_ret
           \<and> calls (snd (reset_mode probe_ret s)) =
               calls s @ [usb_composite_unregister, gserial_cleanup,
                          usb_composite_probe
                            (if current_mode s = MODE_ACM then gs_bind_acm else gs_bind_aoa)])"
  by (simp add: reset_mode_def)

theorem reset_mode_keeps_current_mode_witness:
  "current_mode acm_state = MODE_ACM
   \<and> fst (reset_mode (- 19) acm_state) = - 19
   \<and> current_mode (snd (reset_mode (- 19) acm_state)) = MODE_ACM
   \<and> calls (snd (reset_mode (- 19) acm_state)) =
       [usb_composite_probe gs_bind_acm, usb_composite_unregister, gserial_cleanup,
        usb_composite_probe gs_bind_acm]"
proof -
  have m: "current_mode acm_state = MODE_ACM" and c: "calls acm_state = [usb_composite_probe gs_bind_acm]"
    by (simp_all add: acm_state_def switch_mode_def init_state_def Let_def)
  from reset_mode_keeps_current_mode [of "- 19" acm_state] show ?thesis
    by (simp add: m c)
qed

subsection \<open>The control device\<close>

text \<open>
  C5. While the session flag is set, \<^verbatim>\<open>aoa_open\<close> returns \<open>-EBUSY\<close>, the flag stays
  set, and nothing else changes: not the recorded mode, not the descriptors, and no call
  is made into the composite framework.
\<close>

theorem aoa_open_busy:
  assumes "aoa_ctrl_open s \<noteq> 0"
  shows "aoa_open probe_ret s = (- EBUSY, s\<lparr>aoa_ctrl_open := 1\<rparr>)
         \<and> aoa_ctrl_open (snd (aoa_open probe_ret s)) \<noteq> 0
         \<and> current_mode (snd (aoa_open probe_ret s)) = current_mode s
         \<and> calls (snd (aoa_open probe_ret s)) = calls s
         \<and> descr (snd (aoa_open probe_ret s)) = descr s"
  using assms by (simp add: aoa_open_def)

theorem aoa_open_busy_witness:
  "aoa_ctrl_open open_state \<noteq> 0
   \<and> aoa_open 0 open_state = (- 16, open_state)
   \<and> current_mode (snd (aoa_open 0 open_state)) = MODE_ACM
   \<and> calls (snd (aoa_open 0 open_state)) = [usb_composite_probe gs_bind_acm]"
proof -
  have o: "aoa_ctrl_open open_state = 1" and m: "current_mode open_state = MODE_ACM"
    and c: "calls open_state = [usb_composite_probe gs_bind_acm]"
    by (simp_all add: open_state_def aoa_open_def switch_mode_def init_state_def Let_def)
  have nz: "aoa_ctrl_open open_state \<noteq> 0" by (simp add: o)
  have same: "open_state\<lparr>aoa_ctrl_open := 1\<rparr> = open_state"
    using o by (metis state.surjective state.update_convs(6))
  from aoa_open_busy [OF nz, of 0] show ?thesis
    by (simp add: nz m c same EBUSY_def)
qed

text \<open>
  C7. A read whose length is not the size of \<^verbatim>\<open>struct aoa_event\<close> returns
  \<open>-EINVAL\<close> and leaves the state as it was: the cursor does not move and the log keeps
  every event.
\<close>

theorem aoa_read_wrong_length:
  "unat len \<noteq> sizeof_aoa_event \<Longrightarrow>
   aoa_read buf len signal user_ok s = Some (Returns (- EINVAL) None, s)"
  by (simp add: aoa_read_def)

theorem aoa_read_wrong_length_witness:
  "unat (263 :: size_t) \<noteq> sizeof_aoa_event
   \<and> next_aoa_event_node two_events_state = Some 2
   \<and> aoa_read (Some 0) 263 False True two_events_state
       = Some (Returns (- 22) None, two_events_state)"
proof -
  have l: "unat (263 :: size_t) \<noteq> sizeof_aoa_event"
    by (simp add: sizeof_aoa_event_def sizeof_enum_def AOA_MAX_STR_SIZE_def)
  from aoa_read_wrong_length [OF l, of "Some 0" False True two_events_state] l show ?thesis
    by (simp add: EINVAL_def two_events_state_def)
qed

subsection \<open>The event queue\<close>

text \<open>When the node allocation fails the event is dropped and the state is as it was.\<close>

lemma event_add_no_memory: "aoa_event_add t None s = Some s"
  by (simp add: aoa_event_add_def aoa_event_node_add_def)

text \<open>The loop of the compaction starts after the old head, which serves as the list
  head: the nodes behind it are freed, the old head itself stays allocated, out of reach.\<close>

lemma connected_push_keeps_old_head_allocated:
  "\<exists>s'. aoa_event_add AOA_EVENT_CONNECTED_ACM (Some 3) two_events_state = Some s'
        \<and> heap s' 1 \<noteq> None \<and> heap s' 2 = None"
  by (simp add: eval_defs two_events_state_def)

text \<open>
  C2. In a state whose log holds any number of nodes, read or unread, a \<open>Connected\<close>
  event whose node allocation succeeds leaves the head, the cursor and the tail all at the
  new node, which links to itself in both directions: the log is that one node, none of
  the earlier nodes is part of it, and the next read returns the \<open>Connected\<close> record and
  leaves nothing to read.
\<close>

theorem connected_push_discards_earlier_records:
  assumes q: "queue s ns" and fresh: "heap s new = None" and buf: "buf \<noteq> None"
  shows "\<exists>s' n. aoa_event_add AOA_EVENT_CONNECTED_ACM (Some new) s = Some s'
           \<and> first_aoa_event_node s' = Some new \<and> next_aoa_event_node s' = Some new
           \<and> last_aoa_event_node s' = Some new
           \<and> heap s' new = Some n \<and> nxt n = new \<and> prv n = new
           \<and> queue s' [new] \<and> new \<notin> set ns
           \<and> reads 1 buf signal s' =
               Some ([\<lparr>event_type = AOA_EVENT_CONNECTED_ACM, event_string = None\<rparr>],
                     s'\<lparr>next_aoa_event_node := None\<rparr>)"
proof -
  from node_add_queue [OF q fresh, of None AOA_EVENT_CONNECTED_ACM None] obtain s' n where
    run: "aoa_event_node_add AOA_EVENT_CONNECTED_ACM None None (Some new) s = Some (True, s')"
    and q': "queue s' [new]"
    and c': "contents (heap s') [new] =
               [Some (event_of \<lparr>ntype = AOA_EVENT_CONNECTED_ACM, str_type = None, str = None,
                                 nxt = 0, prv = 0\<rparr>)]"
    and p': "pending s' [new] = [new]"
    and n: "heap s' new = Some n" "nxt n = new" "prv n = new"
    by auto
  from reads_pending [OF q' buf, of signal] obtain evs where
    "reads (length (pending s' [new])) buf signal s' = Some (evs, s'\<lparr>next_aoa_event_node := None\<rparr>)"
    "map Some evs = contents (heap s') (pending s' [new])"
    by blast
  then have rd: "reads 1 buf signal s' =
               Some ([\<lparr>event_type = AOA_EVENT_CONNECTED_ACM, event_string = None\<rparr>],
                     s'\<lparr>next_aoa_event_node := None\<rparr>)"
    unfolding p' c' by (auto simp: event_of_def)
  have nn: "new \<notin> set ns"
  proof (cases "first_aoa_event_node s")
    case None
    with q show ?thesis by (simp add: queue_def)
  next
    case (Some f)
    with q have "ring (heap s) ns" by (simp add: queue_def)
    from ring_in_heap [OF this] fresh show ?thesis by fastforce
  qed
  show ?thesis
    using run queue_single [OF q'] pending_decomp(1) [OF p'] n q' nn rd
    by (intro exI [of _ s'] exI [of _ n]) (simp add: aoa_event_add_def)
qed

theorem connected_push_discards_earlier_records_witness:
  "queue two_events_state [1, 2] \<and> heap two_events_state 3 = None
   \<and> (\<exists>s'. aoa_event_add AOA_EVENT_CONNECTED_ACM (Some 3) two_events_state = Some s'
          \<and> first_aoa_event_node s' = Some 3 \<and> next_aoa_event_node s' = Some 3
          \<and> last_aoa_event_node s' = Some 3 \<and> queue s' [3]
          \<and> reads 1 (Some 0) False s' =
               Some ([\<lparr>event_type = AOA_EVENT_CONNECTED_ACM, event_string = None\<rparr>],
                     s'\<lparr>next_aoa_event_node := None\<rparr>))"
  using connected_push_discards_earlier_records
          [OF two_events_queue two_events_free, of "Some 0" False]
    two_events_queue two_events_free
  by auto

text \<open>
  C3. After producer calls none of which is a \<open>Connected\<close> event, whatever their
  allocations return, as many reads as there are unread records return first the records
  that were unread before and then the records of the calls that enqueued one, in the
  order of the calls, and leave nothing to read.
\<close>

theorem reads_return_pushes_in_order:
  assumes q: "queue s ns" and fresh: "fresh_allocs cs s"
    and v: "list_all (\<lambda>(c, al). valid_call c \<and> c \<noteq> Event_add AOA_EVENT_CONNECTED_ACM) cs"
    and buf: "buf \<noteq> None"
  shows "\<exists>s1 evs. pushes cs s = Some s1
           \<and> reads (length (pending s ns) + length (enqueued cs)) buf signal s1
               = Some (evs, s1\<lparr>next_aoa_event_node := None\<rparr>)
           \<and> map Some evs =
               contents (heap s) (pending s ns) @ map (\<lambda>(c, a). Some (record_of c)) (enqueued cs)"
proof -
  define new where "new = map snd (enqueued cs)"
  define recs where "recs = map (\<lambda>(c, a). Some (record_of c)) (enqueued cs)"
  from pushes_pending [OF q fresh v] obtain s1 where
    p: "pushes cs s = Some s1" and q1: "queue s1 (ns @ new)"
    and p1: "pending s1 (ns @ new) = pending s ns @ new"
    and c1: "contents (heap s1) (ns @ new) = contents (heap s) ns @ recs"
    unfolding new_def recs_def by blast
  from pending_suffix [of ns s] obtain pre where pre: "ns = pre @ pending s ns" by blast
  from c1 have "contents (heap s1) ((pre @ pending s ns) @ new) =
                contents (heap s) (pre @ pending s ns) @ recs"
    by (simp only: pre [symmetric])
  from contents_suffix [OF this]
  have c2: "contents (heap s1) (pending s ns @ new) = contents (heap s) (pending s ns) @ recs" .
  from reads_pending [OF q1 buf, of signal] obtain evs where
    "reads (length (pending s1 (ns @ new))) buf signal s1
       = Some (evs, s1\<lparr>next_aoa_event_node := None\<rparr>)"
    "map Some evs = contents (heap s1) (pending s1 (ns @ new))"
    by blast
  then have "reads (length (pending s ns) + length (enqueued cs)) buf signal s1
               = Some (evs, s1\<lparr>next_aoa_event_node := None\<rparr>)"
    and "map Some evs = contents (heap s) (pending s ns) @ recs"
    by (simp_all add: p1 c2) (simp add: new_def)
  with p show ?thesis unfolding recs_def by blast
qed

theorem reads_return_pushes_in_order_witness:
  "queue init_state [] \<and> fresh_allocs in_order_calls init_state
   \<and> (\<exists>s1. pushes in_order_calls init_state = Some s1
          \<and> reads 3 (Some 0) False s1 =
              Some ([\<lparr>event_type = AOA_EVENT_STRING_RECEIVED,
                      event_string = Some \<lparr>string_type = Some AOA_STRING_MODEL,
                                            string_str = ''Pixel'' @ [NUL]\<rparr>\<rparr>,
                     \<lparr>event_type = AOA_EVENT_START_REQUESTED, event_string = None\<rparr>,
                     \<lparr>event_type = AOA_EVENT_DISCONNECTED_ACM, event_string = None\<rparr>],
                    s1\<lparr>next_aoa_event_node := None\<rparr>))"
proof -
  have f: "fresh_allocs in_order_calls init_state"
    by (simp add: in_order_calls_def eval_defs)
  have v: "list_all (\<lambda>(c, al). valid_call c \<and> c \<noteq> Event_add AOA_EVENT_CONNECTED_ACM)
             in_order_calls"
    by (simp add: in_order_calls_def)
  have b: "Some (0::nat) \<noteq> None" by simp
  have n: "length (pending init_state []) + length (enqueued in_order_calls) = 3"
    by (simp add: pending_def in_order_calls_def init_state_def)
  have recs: "contents (heap init_state) (pending init_state [])
                @ map (\<lambda>(c, a). Some (record_of c)) (enqueued in_order_calls) =
              map Some
                [\<lparr>event_type = AOA_EVENT_STRING_RECEIVED,
                  event_string = Some \<lparr>string_type = Some AOA_STRING_MODEL,
                                        string_str = ''Pixel'' @ [NUL]\<rparr>\<rparr>,
                 \<lparr>event_type = AOA_EVENT_START_REQUESTED, event_string = None\<rparr>,
                 \<lparr>event_type = AOA_EVENT_DISCONNECTED_ACM, event_string = None\<rparr>]"
    by (simp add: pending_def contents_def in_order_calls_def AOA_MAX_STR_SIZE_def NUL_def
        init_state_def)
  from reads_return_pushes_in_order [OF init_queue f v b, of False] obtain s1 evs where
    p: "pushes in_order_calls init_state = Some s1"
    and r: "reads 3 (Some 0) False s1 = Some (evs, s1\<lparr>next_aoa_event_node := None\<rparr>)"
    and e: "map Some evs =
              map Some
                [\<lparr>event_type = AOA_EVENT_STRING_RECEIVED,
                  event_string = Some \<lparr>string_type = Some AOA_STRING_MODEL,
                                        string_str = ''Pixel'' @ [NUL]\<rparr>\<rparr>,
                 \<lparr>event_type = AOA_EVENT_START_REQUESTED, event_string = None\<rparr>,
                 \<lparr>event_type = AOA_EVENT_DISCONNECTED_ACM, event_string = None\<rparr>]"
    unfolding n recs by blast
  from e have "evs =
                [\<lparr>event_type = AOA_EVENT_STRING_RECEIVED,
                  event_string = Some \<lparr>string_type = Some AOA_STRING_MODEL,
                                        string_str = ''Pixel'' @ [NUL]\<rparr>\<rparr>,
                 \<lparr>event_type = AOA_EVENT_START_REQUESTED, event_string = None\<rparr>,
                 \<lparr>event_type = AOA_EVENT_DISCONNECTED_ACM, event_string = None\<rparr>]"
    by (simp only: inj_map_eq_map [OF inj_Some])
  with p r have "\<exists>s1. pushes in_order_calls init_state = Some s1
          \<and> reads 3 (Some 0) False s1 =
              Some ([\<lparr>event_type = AOA_EVENT_STRING_RECEIVED,
                      event_string = Some \<lparr>string_type = Some AOA_STRING_MODEL,
                                            string_str = ''Pixel'' @ [NUL]\<rparr>\<rparr>,
                     \<lparr>event_type = AOA_EVENT_START_REQUESTED, event_string = None\<rparr>,
                     \<lparr>event_type = AOA_EVENT_DISCONNECTED_ACM, event_string = None\<rparr>],
                    s1\<lparr>next_aoa_event_node := None\<rparr>)"
    by blast
  with init_queue f show ?thesis by blast
qed

text \<open>
  C6. Start from any log, run producer calls, whatever their allocations return, let a
  session read any number of records, and open the device successfully: the cursor is back
  at the head, and the reads that follow return every enqueued record that survives
  compaction, whether pushed before the open or read before, in the order of insertion, and
  then nothing is left to read.
\<close>

theorem open_replays_surviving_log:
  assumes q: "queue s0 ns0" and l0: "contents (heap s0) ns0 = map Some log0"
    and fresh: "fresh_allocs cs s0" and v: "list_all (\<lambda>(c, al). valid_call c) cs"
    and p: "pushes cs s0 = Some s1"
    and r: "reads k buf signal s1 = Some (old, s2)"
    and o: "aoa_open probe_ret s2 = (0, s3)"
    and buf: "buf \<noteq> None"
  shows "next_aoa_event_node s3 = first_aoa_event_node s3
         \<and> reads (length (survivors log0 (map (\<lambda>(c, a). record_of c) (enqueued cs)))) buf signal s3
             = Some (survivors log0 (map (\<lambda>(c, a). record_of c) (enqueued cs)),
                     s3\<lparr>next_aoa_event_node := None\<rparr>)"
proof -
  define L where "L = survivors log0 (map (\<lambda>(c, a). record_of c) (enqueued cs))"
  from pushes_log [OF q l0 fresh v] p obtain ns1 where
    q1: "queue s1 ns1" and c1: "contents (heap s1) ns1 = map Some L"
    by (auto simp: L_def)
  from reads_queue [OF q1 r] have q2: "queue s2 ns1" and h2: "heap s2 = heap s1" by simp_all
  note oq = open_queue [OF q2 o]
  from reads_pending [OF oq(1) buf, of signal] obtain evs where
    "reads (length ns1) buf signal s3 = Some (evs, s3\<lparr>next_aoa_event_node := None\<rparr>)"
    "map Some evs = contents (heap s3) ns1"
    by (auto simp: oq(3))
  moreover from this(2) have "map Some evs = map Some L" by (simp add: oq(2) h2 c1)
  then have "evs = L" by (simp add: inj_map_eq_map)
  moreover from c1 have "length ns1 = length L"
    by (metis contents_def length_map)
  ultimately show ?thesis using oq(4) by (simp add: L_def)
qed


theorem open_replays_surviving_log_witness:
  "queue init_state [] \<and> fresh_allocs example_calls init_state
   \<and> (\<exists>s1 old s2 s3.
         pushes example_calls init_state = Some s1
         \<and> reads 1 (Some 0) False s1 = Some (old, s2)
         \<and> aoa_open 0 s2 = (0, s3)
         \<and> reads 2 (Some 0) False s3 =
             Some ([\<lparr>event_type = AOA_EVENT_CONNECTED_ACM, event_string = None\<rparr>,
                    \<lparr>event_type = AOA_EVENT_START_REQUESTED, event_string = None\<rparr>],
                   s3\<lparr>next_aoa_event_node := None\<rparr>))"
proof -
  have f: "fresh_allocs example_calls init_state"
    by (simp add: example_calls_def eval_defs)
  have v: "list_all (\<lambda>(c, al). valid_call c) example_calls"
    by (simp add: example_calls_def)
  have c0: "contents (heap init_state) [] = map Some []" by (simp add: contents_def)
  have b: "Some (0::nat) \<noteq> None" by simp
  have "\<exists>s1 old s2 s3.
         pushes example_calls init_state = Some s1
         \<and> reads 1 (Some 0) False s1 = Some (old, s2)
         \<and> aoa_open 0 s2 = (0, s3)"
    by (simp add: example_calls_def eval_defs aoa_open_def switch_mode_def Let_def)
  then obtain s1 old s2 s3 where
    p: "pushes example_calls init_state = Some s1"
    and r: "reads 1 (Some 0) False s1 = Some (old, s2)"
    and o: "aoa_open 0 s2 = (0, s3)"
    by blast
  have sv: "survivors [] (map (\<lambda>(c, a). record_of c) (enqueued example_calls)) =
             [\<lparr>event_type = AOA_EVENT_CONNECTED_ACM, event_string = None\<rparr>,
              \<lparr>event_type = AOA_EVENT_START_REQUESTED, event_string = None\<rparr>]"
    by (simp add: example_calls_def survivors_def compact_def)
  from open_replays_surviving_log [OF init_queue c0 f v p r o b]
  have "reads 2 (Some 0) False s3 =
             Some ([\<lparr>event_type = AOA_EVENT_CONNECTED_ACM, event_string = None\<rparr>,
                    \<lparr>event_type = AOA_EVENT_START_REQUESTED, event_string = None\<rparr>],
                   s3\<lparr>next_aoa_event_node := None\<rparr>)"
    unfolding sv by (simp add: numeral_2_eq_2 del: reads.simps)
  with init_queue f p r o show ?thesis by blast
qed

text \<open>
  C8. A string handed to \<^verbatim>\<open>aoa_str_received_event_add\<close> with length \<open>len\<close> is stored
  as \<open>min (len + 1) 256 - 1\<close> of its bytes followed by a terminator, \<open>min (len + 1) 256\<close>
  bytes in all and never more than 256: a string of at most 255 bytes is stored in full, a
  longer one is cut to 255 bytes, and neither is rejected.
\<close>

theorem str_received_payload_bounded:
  assumes q: "queue s ns" and fresh: "heap s new = None"
    and len: "unat len \<le> length strbuf" and nowrap: "unat len < 2 ^ 32 - 1"
  shows "\<exists>s' n b. aoa_str_received_event_add ty strbuf len True (Some new) s = Some s'
           \<and> heap s' new = Some n \<and> ntype n = AOA_EVENT_STRING_RECEIVED
           \<and> str_type n = Some ty \<and> str n = Some b
           \<and> b = take (unat (min (len + 1) (of_nat AOA_MAX_STR_SIZE)) - 1) strbuf @ [NUL]
           \<and> length b = unat (min (len + 1) (of_nat AOA_MAX_STR_SIZE))
           \<and> length b \<le> AOA_MAX_STR_SIZE
           \<and> (if unat len < AOA_MAX_STR_SIZE then b = take (unat len) strbuf @ [NUL]
               else b = take (AOA_MAX_STR_SIZE - 1) strbuf @ [NUL])"
proof -
  define b where "b = take (min (unat len) 255) strbuf @ [NUL]"
  have ok: "case Some b of None \<Rightarrow> True | Some b \<Rightarrow> NUL \<in> set b \<and> length b \<le> AOA_MAX_STR_SIZE"
    by (simp add: b_def AOA_MAX_STR_SIZE_def)
  from node_add_queue [OF q fresh ok, of AOA_EVENT_STRING_RECEIVED "Some ty"] obtain s' where
    run: "aoa_event_node_add AOA_EVENT_STRING_RECEIVED (Some ty) (Some b) (Some new) s = Some (True, s')"
    and pl: "map_option payload (heap s' new) = Some (AOA_EVENT_STRING_RECEIVED, Some ty, Some b)"
    by auto
  from pl obtain n where n: "heap s' new = Some n" "ntype n = AOA_EVENT_STRING_RECEIVED"
    "str_type n = Some ty" "str n = Some b"
    by (auto simp: payload_def)
  have r: "aoa_str_received_event_add ty strbuf len True (Some new) s = Some s'"
    using run by (simp add: str_received_run [OF len nowrap] b_def)
  have m: "unat (min (len + 1) (of_nat AOA_MAX_STR_SIZE :: size_t)) = min (unat len + 1) 256"
    by (rule str_mem_len(1) [OF nowrap])
  have k: "min (unat len + 1) 256 - 1 = min (unat len) 255" by (simp add: min_def)
  have b1: "b = take (unat (min (len + 1) (of_nat AOA_MAX_STR_SIZE :: size_t)) - 1) strbuf @ [NUL]"
    unfolding m k by (simp add: b_def)
  have lb: "length b = unat (min (len + 1) (of_nat AOA_MAX_STR_SIZE :: size_t))"
    unfolding m using len by (simp add: b_def min_def)
  have lb2: "length b \<le> AOA_MAX_STR_SIZE"
    unfolding lb m by (simp add: AOA_MAX_STR_SIZE_def)
  have b2: "if unat len < AOA_MAX_STR_SIZE then b = take (unat len) strbuf @ [NUL]
            else b = take (AOA_MAX_STR_SIZE - 1) strbuf @ [NUL]"
    by (simp add: b_def AOA_MAX_STR_SIZE_def min_def)
  show ?thesis
    using r n b1 lb lb2 b2 by blast
qed

theorem str_received_payload_bounded_witness:
  "queue two_events_state [1, 2] \<and> heap two_events_state 3 = None
   \<and> unat (5 :: size_t) \<le> length ''Pixel'' \<and> unat (5 :: size_t) < 2 ^ 32 - 1
   \<and> (\<exists>s' n. aoa_str_received_event_add AOA_STRING_MODEL ''Pixel'' 5 True (Some 3)
               two_events_state = Some s'
            \<and> heap s' 3 = Some n \<and> str n = Some (''Pixel'' @ [NUL]))"
proof -
  have l: "unat (5 :: size_t) \<le> length ''Pixel''" and w: "unat (5 :: size_t) < 2 ^ 32 - 1"
    by simp_all
  from str_received_payload_bounded [OF two_events_queue two_events_free l w, of AOA_STRING_MODEL]
  show ?thesis using two_events_queue two_events_free
    by (auto simp: AOA_MAX_STR_SIZE_def)
qed


lemma event_add_flag:
  "aoa_event_add t a s = Some s' \<Longrightarrow> aoa_connected_acm s' = aoa_connected_acm s"
  using node_add_flags by (auto simp: aoa_event_add_def)

lemma set_connected_flag:
  assumes "aoa_set_connected_acm b a s = Some s1"
  shows "aoa_connected_acm s1 = of_bool b"
proof (cases "aoa_connected_acm s = of_bool b")
  case True
  with assms show ?thesis by (auto simp: aoa_set_connected_acm_def)
next
  case False
  with assms have
    "aoa_event_add (if b then AOA_EVENT_CONNECTED_ACM else AOA_EVENT_DISCONNECTED_ACM) a
       (s\<lparr>aoa_connected_acm := of_bool b\<rparr>) = Some s1"
    by (simp add: aoa_set_connected_acm_def Let_def split: if_splits)
  from event_add_flag [OF this] show ?thesis by simp
qed

lemma set_connected_same:
  "aoa_connected_acm s = of_bool b \<Longrightarrow> aoa_set_connected_acm b a s = Some s"
  by (simp add: aoa_set_connected_acm_def Let_def)

text \<open>
  C10. Reporting the value the connected flag already holds leaves the state as it was.
  Reporting a different value makes exactly one call of \<^verbatim>\<open>aoa_event_add\<close>, for
  \<open>Connected\<close> when the new value is true and \<open>Disconnected\<close> when it is false, and
  with a successful allocation the log gains exactly that record. Reporting the same value
  a second time leaves the state of the first report as it is.
\<close>

theorem connected_tracker_edge_triggered:
  assumes q: "queue s ns" and fresh: "heap s new = None"
  shows "(if aoa_connected_acm s = of_bool b
          then aoa_set_connected_acm b a s = Some s
          else aoa_set_connected_acm b a s =
                 aoa_event_add (if b then AOA_EVENT_CONNECTED_ACM else AOA_EVENT_DISCONNECTED_ACM)
                   a (s\<lparr>aoa_connected_acm := of_bool b\<rparr>)
               \<and> (\<exists>s'. aoa_set_connected_acm b (Some new) s = Some s'
                      \<and> aoa_connected_acm s' = of_bool b
                      \<and> queue s' (if b then [new] else ns @ [new])
                      \<and> contents (heap s') (if b then [new] else ns @ [new]) =
                          (if b then [] else contents (heap s) ns)
                          @ [Some \<lparr>event_type =
                                    (if b then AOA_EVENT_CONNECTED_ACM
                                     else AOA_EVENT_DISCONNECTED_ACM),
                                   event_string = None\<rparr>]))
         \<and> (\<forall>s1. aoa_set_connected_acm b a s = Some s1 \<longrightarrow>
                  aoa_set_connected_acm b a' s1 = Some s1)"
proof -
  have again: "\<forall>s1. aoa_set_connected_acm b a s = Some s1 \<longrightarrow>
                  aoa_set_connected_acm b a' s1 = Some s1"
    using set_connected_flag set_connected_same by blast
  show ?thesis
  proof (cases "aoa_connected_acm s = of_bool b")
    case True
    with again set_connected_same show ?thesis by simp
  next
    case False
    define t where "t = (if b then AOA_EVENT_CONNECTED_ACM else AOA_EVENT_DISCONNECTED_ACM)"
    define s0 where "s0 = s\<lparr>aoa_connected_acm := of_bool b\<rparr>"
    have run: "aoa_set_connected_acm b x s = aoa_event_add t x s0" for x
      using False by (simp add: aoa_set_connected_acm_def Let_def t_def s0_def)
    have q0: "queue s0 ns" by (rule queue_cong [OF q]) (simp_all add: s0_def)
    have f0: "heap s0 new = None" using fresh by (simp add: s0_def)
    have tb: "t = AOA_EVENT_CONNECTED_ACM \<longleftrightarrow> b" by (simp add: t_def)
    have h0: "heap s0 = heap s" by (simp add: s0_def)
    from node_add_queue [OF q0 f0, of None t None] obtain s' where
      r: "aoa_event_node_add t None None (Some new) s0 = Some (True, s')"
      and q': "queue s' (if b then [new] else ns @ [new])"
      and c': "contents (heap s') (if b then [new] else ns @ [new]) =
               (if b then [] else contents (heap s) ns)
               @ [Some (event_of \<lparr>ntype = t, str_type = None, str = None, nxt = 0, prv = 0\<rparr>)]"
      unfolding tb h0 by auto
    have e: "aoa_event_add t (Some new) s0 = Some s'" using r by (simp add: aoa_event_add_def)
    from event_add_flag [OF e] have fl: "aoa_connected_acm s' = of_bool b" by (simp add: s0_def)
    have "\<exists>s'. aoa_set_connected_acm b (Some new) s = Some s'
                      \<and> aoa_connected_acm s' = of_bool b
                      \<and> queue s' (if b then [new] else ns @ [new])
                      \<and> contents (heap s') (if b then [new] else ns @ [new]) =
                          (if b then [] else contents (heap s) ns)
                          @ [Some \<lparr>event_type = t, event_string = None\<rparr>]"
      using e fl q' c' by (intro exI [of _ s']) (simp add: run event_of_def)
    with False again run [of a] show ?thesis by (simp add: t_def s0_def)
  qed
qed

theorem connected_tracker_edge_triggered_witness:
  "queue two_events_state [1, 2] \<and> heap two_events_state 3 = None
   \<and> aoa_connected_acm two_events_state \<noteq> of_bool True
   \<and> (\<exists>s'. aoa_set_connected_acm True (Some 3) two_events_state = Some s'
          \<and> aoa_connected_acm s' = 1 \<and> queue s' [3]
          \<and> contents (heap s') [3] =
              [Some \<lparr>event_type = AOA_EVENT_CONNECTED_ACM, event_string = None\<rparr>]
          \<and> aoa_set_connected_acm True (Some 4) s' = Some s')"
proof -
  have c: "aoa_connected_acm two_events_state \<noteq> of_bool True"
    by (simp add: two_events_state_def init_state_def)
  from connected_tracker_edge_triggered
         [OF two_events_queue two_events_free, of True "Some 3" "Some 4",
          unfolded if_not_P [OF c]]
  have "\<exists>s'. aoa_set_connected_acm True (Some 3) two_events_state = Some s'
          \<and> aoa_connected_acm s' = of_bool True \<and> queue s' (if True then [3] else [1, 2] @ [3])
          \<and> contents (heap s') (if True then [3] else [1, 2] @ [3]) =
              (if True then [] else contents (heap two_events_state) [1, 2])
              @ [Some \<lparr>event_type =
                         (if True then AOA_EVENT_CONNECTED_ACM else AOA_EVENT_DISCONNECTED_ACM),
                       event_string = None\<rparr>]"
    and again: "\<forall>s1. aoa_set_connected_acm True (Some 3) two_events_state = Some s1 \<longrightarrow>
                  aoa_set_connected_acm True (Some 4) s1 = Some s1"
    by blast+
  then obtain s' where
    "aoa_set_connected_acm True (Some 3) two_events_state = Some s'"
    "aoa_connected_acm s' = 1" "queue s' [3]"
    "contents (heap s') [3] =
       [Some \<lparr>event_type = AOA_EVENT_CONNECTED_ACM, event_string = None\<rparr>]"
    by auto
  with again c two_events_queue two_events_free show ?thesis by blast
qed


end
